theory Spec2Isabelle
  imports Main
begin

section \<open>Python values: errors, strings, list indexing\<close>

text \<open>
  The exceptions the two source files can raise. \<open>ValueError\<close> carries the message of
  the \<open>raise\<close> statement, \<open>AssertionError\<close> the message of the \<open>assert\<close> (empty when
  the assertion has none); \<open>IndexError\<close> is what list indexing out of range raises.
\<close>

datatype error = ValueError string | AssertionError string | IndexError

text \<open>\<open>str(n)\<close> for a Python integer: decimal digits, a minus sign when negative.\<close>

fun str_nat :: "nat \<Rightarrow> string" where
  "str_nat n =
     (if n < 10 then [''0123456789'' ! n]
      else str_nat (n div 10) @ [''0123456789'' ! (n mod 10)])"

declare str_nat.simps [simp del]

definition str_int :: "int \<Rightarrow> string" where
  "str_int i = (if i < 0 then ''-'' @ str_nat (nat (- i)) else str_nat (nat i))"

text \<open>
  \<open>xs[i]\<close> on a Python list: a negative index counts from the end, and an index
  outside the list raises \<open>IndexError\<close>.
\<close>

definition py_pos :: "nat \<Rightarrow> int \<Rightarrow> error + nat" where
  "py_pos n i =
     (if 0 \<le> i \<and> i < int n then Inr (nat i)
      else if i < 0 \<and> - int n \<le> i then Inr (nat (int n + i))
      else Inl IndexError)"

definition py_index :: "'a list \<Rightarrow> int \<Rightarrow> error + 'a" where
  "py_index xs i = (case py_pos (length xs) i of Inl e \<Rightarrow> Inl e | Inr k \<Rightarrow> Inr (xs ! k))"

text \<open>\<open>xs.insert(i, v)\<close>: never raises; the position is clamped to the list.\<close>

definition py_insert :: "'a list \<Rightarrow> int \<Rightarrow> 'a \<Rightarrow> 'a list" where
  "py_insert xs i v =
     (let k = (if i < 0 then nat (int (length xs) + i) else nat i)
      in take k xs @ [v] @ drop k xs)"

text \<open>\<open>range(a, b)\<close> with the default step of 1.\<close>

definition py_range :: "int \<Rightarrow> int \<Rightarrow> int list" where
  "py_range a b = map (\<lambda>k. a + int k) [0..<nat (b - a)]"

text \<open>\<open>sep.join(xs)\<close>.\<close>

fun join :: "string \<Rightarrow> string list \<Rightarrow> string" where
  "join sep [] = []"
| "join sep [x] = x"
| "join sep (x # y # ys) = x @ sep @ join sep (y # ys)"

text \<open>\<open>s.removesuffix(suf)\<close>: drops one trailing copy of a non-empty suffix.\<close>

definition removesuffix :: "string \<Rightarrow> string \<Rightarrow> string" where
  "removesuffix s suf =
     (if suf \<noteq> [] \<and> length suf \<le> length s \<and> drop (length s - length suf) s = suf
      then take (length s - length suf) s else s)"

text \<open>
  \<open>s.strip()\<close>: removes leading and trailing whitespace (the ASCII characters that
  \<open>str.isspace\<close> accepts).
\<close>

definition is_space :: "char \<Rightarrow> bool" where
  "is_space ch = (ch \<in> set [CHR 0x20, CHR 0x09, CHR 0x0A, CHR 0x0B, CHR 0x0C, CHR 0x0D,
                              CHR 0x1C, CHR 0x1D, CHR 0x1E, CHR 0x1F])"

definition strip :: "string \<Rightarrow> string" where
  "strip s = rev (dropWhile is_space (rev (dropWhile is_space s)))"

section \<open>tex\_table\_cell.py: \<open>TexTableCell\<close>\<close>

text \<open>
  The fields \<open>__init__\<close> sets, and the three attributes the slice setters of
  tex\_table.py attach to a cell later (\<open>background_color\<close>, \<open>rotate_degree\<close>,
  \<open>rotate_options\<close>: absent until set, never read by the renderer).
\<close>

record TexTableCell =
  raw_value :: string
  row :: int
  col :: int
  width :: int
  height :: int
  bold :: bool
  italic :: bool
  l_sep :: string
  r_sep :: string
  background_color :: "string option"
  rotate_degree :: "string option"
  rotate_options :: "string option"

definition new_cell :: "string \<Rightarrow> int \<Rightarrow> int \<Rightarrow> int \<Rightarrow> int \<Rightarrow> string \<Rightarrow> string \<Rightarrow> TexTableCell" where
  "new_cell v r c w h ls rs =
     \<lparr>raw_value = v, row = r, col = c, width = w, height = h, bold = False, italic = False,
      l_sep = ls, r_sep = rs, background_color = None, rotate_degree = None,
      rotate_options = None\<rparr>"

definition bounds :: "TexTableCell \<Rightarrow> int \<times> int \<times> int \<times> int" where
  "bounds c = (row c, col c, row c + height c - 1, col c + width c - 1)"

definition styled_value :: "TexTableCell \<Rightarrow> string" where
  "styled_value c =
     (let ans = raw_value c;
          ans = (if bold c then CHR 0x5C # ''textbf{'' @ ans @ ''}'' else ans);
          ans = (if italic c then CHR 0x5C # ''textit{'' @ ans @ ''}'' else ans)
      in ans)"

text \<open>\<open>TexTableCell.__getitem__\<close>, the spec's \<open>render_at\<close>.\<close>

definition cell_getitem :: "TexTableCell \<Rightarrow> int \<Rightarrow> int \<Rightarrow> error + string" where
  "cell_getitem c r cl =
     (if \<not> (row c \<le> r \<and> r < row c + height c) then Inl (AssertionError ''Row out of bounds'')
      else if \<not> (col c \<le> cl \<and> cl < col c + width c) then Inl (AssertionError ''Col out of bounds'')
      else if width c = 1 \<and> height c = 1 then Inr (styled_value c)
      else if r = row c \<and> cl = col c then
        (let ans = styled_value c;
             col_style = l_sep c @ ''c'' @ r_sep c;
             ans = (if height c > 1
                    then CHR 0x5C # ''multirow{'' @ str_int (height c) @ ''}{*}{'' @ ans @ ''}''
                    else ans);
             ans = (if width c > 1
                    then CHR 0x5C # ''multicolumn{'' @ str_int (width c) @ ''}{'' @ col_style
                           @ ''}{'' @ ans @ ''}''
                    else ans)
         in Inr ans)
      else Inr [])"

definition table_value :: "TexTableCell \<Rightarrow> int \<Rightarrow> int \<Rightarrow> error + string" where
  "table_value c r cl =
     (if \<not> (row c \<le> r \<and> r < row c + height c) then Inl (AssertionError ''Row out of bounds'')
      else if \<not> (col c \<le> cl \<and> cl < col c + width c) then Inl (AssertionError ''Col out of bounds'')
      else case cell_getitem c r cl of
             Inl e \<Rightarrow> Inl e
           | Inr ans \<Rightarrow>
               Inr (if r \<noteq> row c \<or> cl = col c + width c - 1 then ans @ '' & '' else ans))"

section \<open>tex\_table.py: helpers\<close>

text \<open>
  \<open>_texcmd(cmd, body, opts, args)\<close>: the \<open>begin\<close> line with the optional bracketed
  options and braced arguments, the body indented by four spaces, the \<open>end\<close> line.
\<close>

definition texcmd :: "string \<Rightarrow> string list \<Rightarrow> string option \<Rightarrow> string option \<Rightarrow> string list" where
  "texcmd cmd' body opts args =
     [CHR 0x5C # ''begin{'' @ cmd' @ ''}''
        @ (case opts of Some s \<Rightarrow> ''['' @ s @ '']'' | None \<Rightarrow> [])
        @ (case args of Some s \<Rightarrow> ''{'' @ s @ ''}'' | None \<Rightarrow> [])]
     @ map (\<lambda>line. ''    '' @ line) body
     @ [CHR 0x5C # ''end{'' @ cmd' @ ''}'']"

text \<open>\<open>_flat(items)\<close> over a list whose items are strings or (nested) lists.\<close>

datatype item = Str string | Lst "item list"

fun flat :: "item list \<Rightarrow> string list" where
  "flat [] = []"
| "flat (Str s # items) = s # flat items"
| "flat (Lst xs # items) = flat xs @ flat items"

datatype RuleType = TOP | MID | BOTTOM

section \<open>tex\_table.py: \<open>TexTable\<close>\<close>

text \<open>
  The grid holds references to cell objects, and a merged cell is one object that
  several slots reference. The model keeps the objects in a store, \<open>cells\<close>, and
  the grid \<open>table\<close> holds their addresses (positions in the store): two slots hold
  the same object (Python's \<open>is\<close>) when they hold the same address. A new object is
  appended to the store. \<open>_dependencies\<close>, \<open>_rules\<close> and \<open>_lines\<close> lose their
  leading underscore.
\<close>

record TexTable =
  col_styles :: "string list"
  seps :: "string list"
  centered :: bool
  caption :: "string option"
  caption_after_table :: bool
  position :: string
  star :: bool
  empty_value :: string
  label :: "string option"
  cmd :: string
  table :: "nat list list"
  cells :: "TexTableCell list"
  dependencies :: "string set"
  rules :: "(int \<times> string) list"
  lines :: "(int \<times> string) list"

definition TexTable_init ::
  "bool \<Rightarrow> string option \<Rightarrow> bool \<Rightarrow> string \<Rightarrow> bool \<Rightarrow> string \<Rightarrow> string option \<Rightarrow> string \<Rightarrow> TexTable" where
  "TexTable_init centered' caption' caption_after_table' position' star' empty_value' label' cmd' =
     \<lparr>col_styles = [], seps = [], centered = centered', caption = caption',
      caption_after_table = caption_after_table', position = position', star = star',
      empty_value = empty_value', label = label', cmd = cmd', table = [], cells = [],
      dependencies = {}, rules = [], lines = []\<rparr>"

text \<open>\<open>TexTable()\<close> with every parameter at its default.\<close>

definition TexTable_default :: TexTable where
  "TexTable_default = TexTable_init True None False ''h!'' False [] None ''figure''"

definition col_count :: "TexTable \<Rightarrow> nat" where
  "col_count t = length (col_styles t)"

definition row_count :: "TexTable \<Rightarrow> nat" where
  "row_count t = length (table t)"

definition str_col_sty :: "TexTable \<Rightarrow> error + string" where
  "str_col_sty t =
     (let sty = foldl (\<lambda>acc (sep, cl). acc @ sep @ cl) [] (zip (seps t) (col_styles t))
      in case py_index (seps t) (- 1) of Inl e \<Rightarrow> Inl e | Inr s \<Rightarrow> Inr (sty @ s))"

definition depends_on :: "string \<Rightarrow> TexTable \<Rightarrow> TexTable" where
  "depends_on dep t = t\<lparr>dependencies := insert dep (dependencies t)\<rparr>"

text \<open>
  An index of \<open>table[i, j]\<close>: an integer, a slice \<open>start:stop\<close> with either end
  optional, or a value of any other type.
\<close>

datatype index = IntIdx int | SliceIdx "int option" "int option" | OtherIdx

definition get_indexing_bounds :: "TexTable \<Rightarrow> index \<Rightarrow> index \<Rightarrow> error + (int \<times> int \<times> int \<times> int)" where
  "get_indexing_bounds t i j =
     (case (case i of
              SliceIdx start stop \<Rightarrow>
                Inr (case start of Some s \<Rightarrow> s | None \<Rightarrow> 0,
                     case stop of Some s \<Rightarrow> s - 1 | None \<Rightarrow> int (length (table t)) - 1)
            | IntIdx k \<Rightarrow> Inr (k, k)
            | OtherIdx \<Rightarrow> Inl (ValueError ''Invalid row index'')) of
        Inl e \<Rightarrow> Inl e
      | Inr (r, to_row) \<Rightarrow>
          (case (case j of
                   SliceIdx start stop \<Rightarrow>
                     Inr (case start of Some s \<Rightarrow> s | None \<Rightarrow> 0,
                          case stop of Some s \<Rightarrow> s - 1 | None \<Rightarrow> int (col_count t) - 1)
                 | IntIdx k \<Rightarrow> Inr (k, k)
                 | OtherIdx \<Rightarrow> Inl (ValueError ''Invalid column index'')) of
             Inl e \<Rightarrow> Inl e
           | Inr (c, to_col) \<Rightarrow> Inr (r, c, to_row, to_col)))"

text \<open>
  The mutating methods return the exception they raised, if any, together with the
  table as the call left it, so that what a failed call has already changed is visible.
  \<open>add_rule\<close> takes a member of the enumeration \<open>RuleType\<close>, so its last branch
  (an unrecognised kind) has no input.
\<close>

definition add_rule :: "int option \<Rightarrow> RuleType \<Rightarrow> TexTable \<Rightarrow> error option \<times> TexTable" where
  "add_rule r rule_type t =
     (let t = depends_on ''booktabs'' t;
          rule = (case rule_type of
                    TOP \<Rightarrow> CHR 0x5C # ''toprule''
                  | MID \<Rightarrow> CHR 0x5C # ''midrule''
                  | BOTTOM \<Rightarrow> CHR 0x5C # ''bottomrule'')
      in (None, t\<lparr>rules := rules t
                    @ [(case r of None \<Rightarrow> int (length (table t)) | Some k \<Rightarrow> k, rule)]\<rparr>))"

definition add_cline :: "int option \<Rightarrow> int \<Rightarrow> int option \<Rightarrow> TexTable \<Rightarrow> error option \<times> TexTable" where
  "add_cline r from_col to_col t =
     (let t = depends_on ''booktabs'' t;
          to_col = (case to_col of None \<Rightarrow> int (col_count t) - 1 | Some k \<Rightarrow> k);
          r = (case r of None \<Rightarrow> int (length (table t)) | Some k \<Rightarrow> k);
          line = CHR 0x5C # ''cline{'' @ str_int (from_col + 1) @ ''-'' @ str_int (to_col + 1)
                   @ ''} ''
      in (None, t\<lparr>lines := lines t @ [(r, strip line)]\<rparr>))"

definition add_cmidrule ::
  "int option \<Rightarrow> int \<Rightarrow> int option \<Rightarrow> string \<Rightarrow> TexTable \<Rightarrow> error option \<times> TexTable" where
  "add_cmidrule r from_col to_col options t =
     (let t = depends_on ''booktabs'' t;
          to_col = (case to_col of None \<Rightarrow> int (col_count t) - 1 | Some k \<Rightarrow> k);
          r = (case r of None \<Rightarrow> int (length (table t)) | Some k \<Rightarrow> k);
          line = CHR 0x5C # ''cmidrule('' @ options @ ''){'' @ str_int (from_col + 1) @ ''-''
                   @ str_int (to_col + 1) @ ''} ''
      in (None, t\<lparr>lines := lines t @ [(r, strip line)]\<rparr>))"

text \<open>\<open>for _ in range(n): f()\<close>, stopping at the first exception.\<close>

fun repeat_call :: "nat \<Rightarrow> (TexTable \<Rightarrow> error option \<times> TexTable) \<Rightarrow> TexTable \<Rightarrow> error option \<times> TexTable" where
  "repeat_call 0 f t = (None, t)"
| "repeat_call (Suc n) f t =
     (case f t of (Some e, t') \<Rightarrow> (Some e, t') | (None, t') \<Rightarrow> repeat_call n f t')"

text \<open>The first exception of a list of results, or all the values.\<close>

fun sequence :: "(error + 'a) list \<Rightarrow> error + 'a list" where
  "sequence [] = Inr []"
| "sequence (Inl e # xs) = Inl e"
| "sequence (Inr x # xs) = (case sequence xs of Inl e \<Rightarrow> Inl e | Inr ys \<Rightarrow> Inr (x # ys))"

text \<open>
  The loop that ends \<open>add_col\<close> (``Add the column''): for each value, in order, a new
  1x1 cell is appended to row \<open>i\<close>, with the last two separators.
\<close>

fun add_col_cells :: "nat \<Rightarrow> string list \<Rightarrow> TexTable \<Rightarrow> error option \<times> TexTable" where
  "add_col_cells i [] t = (None, t)"
| "add_col_cells i (val # vals) t =
     (case py_index (table t) (int i) of
        Inl e \<Rightarrow> (Some e, t)
      | Inr rw \<Rightarrow>
          (case py_index (seps t) (- 2) of
             Inl e \<Rightarrow> (Some e, t)
           | Inr ls \<Rightarrow>
               (case py_index (seps t) (- 1) of
                  Inl e \<Rightarrow> (Some e, t)
                | Inr rs \<Rightarrow>
                    add_col_cells (Suc i) vals
                      (t\<lparr>table := (table t)[i := rw @ [length (cells t)]],
                         cells := cells t @ [new_cell val (int i) (int (length rw)) 1 1 ls rs]\<rparr>))))"

text \<open>The first three statements of \<open>add_col\<close>: the new column's style and separators.\<close>

definition add_col_style :: "TexTable \<Rightarrow> TexTable" where
  "add_col_style t =
     (let t = t\<lparr>col_styles := col_styles t @ [''c'']\<rparr>;
          t = t\<lparr>seps := seps t @ [[]]\<rparr>
      in if length (col_styles t) = 1 then t\<lparr>seps := seps t @ [[]]\<rparr> else t)"

text \<open>
  \<open>self.add_col()\<close>, the call \<open>add_row\<close> makes: \<open>add_col\<close> with no values and
  \<open>start = 0\<close>. Then \<open>_values\<close> is empty, it is padded to \<open>row_count\<close> placeholders,
  and the branch that calls \<open>add_row\<close> (more values than rows) is not taken.
  \<open>add_col_no_values\<close> below proves that \<open>add_col\<close> at these arguments is this
  function.
\<close>

definition add_col_empty :: "TexTable \<Rightarrow> error option \<times> TexTable" where
  "add_col_empty t =
     (let t = add_col_style t
      in add_col_cells 0 (replicate (row_count t) (empty_value t)) t)"

text \<open>
  The list comprehension of \<open>add_row\<close>: one new 1x1 cell for each value, in row
  \<open>len(self.table)\<close> and column \<open>i\<close>, with the separators \<open>seps[i]\<close> and
  \<open>seps[i + 1]\<close>.
\<close>

definition new_row_cells :: "TexTable \<Rightarrow> string list \<Rightarrow> error + TexTableCell list" where
  "new_row_cells t vals =
     sequence
       (map (\<lambda>(i, val).
               case py_index (seps t) (int i) of
                 Inl e \<Rightarrow> Inl e
               | Inr ls \<Rightarrow>
                   (case py_index (seps t) (int i + 1) of
                      Inl e \<Rightarrow> Inl e
                    | Inr rs \<Rightarrow> Inr (new_cell val (int (length (table t))) (int i) 1 1 ls rs)))
            (enumerate 0 vals))"

text \<open>
  \<open>add_row(*values, start, prep)\<close>. A value is \<open>None\<close> (Python's \<open>None\<close>, replaced
  by the placeholder) or \<open>Some s\<close> with \<open>s\<close> the text \<open>str(prep(val))\<close>. The cells
  of the new row are built first, and the row is appended once all of them exist.
\<close>

definition add_row :: "string option list \<Rightarrow> int \<Rightarrow> TexTable \<Rightarrow> error option \<times> TexTable" where
  "add_row values start t =
     (let vals = map (\<lambda>v. case v of Some s \<Rightarrow> s | None \<Rightarrow> empty_value t) values;
          vals = (if start > 0 then replicate (nat start) (empty_value t) @ vals else vals);
          (vals, grown) =
            (if length vals < col_count t
             then (vals @ replicate (col_count t - length vals) (empty_value t), (None, t))
             else if length vals > col_count t
             then (vals, repeat_call (length vals - col_count t) add_col_empty t)
             else (vals, (None, t)))
      in case grown of
           (Some e, t) \<Rightarrow> (Some e, t)
         | (None, t) \<Rightarrow>
             (case new_row_cells t vals of
                Inl e \<Rightarrow> (Some e, t)
              | Inr new_cells \<Rightarrow>
                  (None, t\<lparr>table := table t
                                  @ [[length (cells t)..<length (cells t) + length new_cells]],
                            cells := cells t @ new_cells\<rparr>)))"

text \<open>
  \<open>add_col(*values, start, prep)\<close>. Each value is the text \<open>str(prep(val))\<close>: here
  \<open>None\<close> is not replaced by the placeholder.
\<close>

definition add_col :: "string list \<Rightarrow> int \<Rightarrow> TexTable \<Rightarrow> error option \<times> TexTable" where
  "add_col values start t =
     (let t = add_col_style t;
          vals = values;
          vals = (if start > 0 then replicate (nat start) (empty_value t) @ vals else vals);
          (vals, grown) =
            (if length vals < row_count t
             then (vals @ replicate (row_count t - length vals) (empty_value t), (None, t))
             else if length vals > row_count t
             then (vals, repeat_call (length vals - row_count t) (add_row [] 0) t)
             else (vals, (None, t)))
      in case grown of
           (Some e, t) \<Rightarrow> (Some e, t)
         | (None, t) \<Rightarrow> add_col_cells 0 vals t)"

subsection \<open>Reading the grid\<close>

text \<open>\<open>self.table[i][j]\<close>: the address in the slot, and the cell object it refers to.\<close>

definition grid_ref :: "TexTable \<Rightarrow> int \<Rightarrow> int \<Rightarrow> error + nat" where
  "grid_ref t i j = (case py_index (table t) i of Inl e \<Rightarrow> Inl e | Inr rw \<Rightarrow> py_index rw j)"

definition grid_cell :: "TexTable \<Rightarrow> int \<Rightarrow> int \<Rightarrow> error + TexTableCell" where
  "grid_cell t i j = (case grid_ref t i j of Inl e \<Rightarrow> Inl e | Inr k \<Rightarrow> Inr (cells t ! k))"

text \<open>
  The slots the two nested loops \<open>for i in range(r, to_row + 1): for j in range(c,
  to_col + 1)\<close> visit, in the order they visit them.
\<close>

definition slots :: "int \<Rightarrow> int \<Rightarrow> int \<Rightarrow> int \<Rightarrow> (int \<times> int) list" where
  "slots r c to_row to_col = List.product (py_range r (to_row + 1)) (py_range c (to_col + 1))"

subsection \<open>\<open>merge\<close>\<close>

definition overlap_message :: string where
  "overlap_message = ''Invalid cell bounds. There is a cell inside the ''
     @ ''boundaries that is not fully contained in the '' @ ''merge area.''"

text \<open>
  One axis of the rectangle: from the anchor, the size (\<open>height\<close> or \<open>width\<close>) and
  the end (\<open>to_row\<close> or \<open>to_col\<close>), the end and the size the code goes on with. The
  end wins when both are given; the \<open>assert\<close> fails when neither is.
\<close>

definition resolve_axis :: "int \<Rightarrow> int option \<Rightarrow> int option \<Rightarrow> error + (int \<times> int)" where
  "resolve_axis start size' end' =
     (case end' of
        None \<Rightarrow> (case size' of None \<Rightarrow> Inl (AssertionError []) | Some n \<Rightarrow> Inr (start + n - 1, n))
      | Some e \<Rightarrow> Inr (e, e - start + 1))"

text \<open>
  The loop that checks every cell of the rectangle. The first comparison is against the
  row being visited (\<open>_row\<close>), the other three against the rectangle (\<open>col\<close>,
  \<open>to_row\<close>, \<open>to_col\<close>).
\<close>

fun check_cells :: "TexTable \<Rightarrow> int \<Rightarrow> int \<Rightarrow> int \<Rightarrow> (int \<times> int) list \<Rightarrow> error option" where
  "check_cells t c to_row to_col [] = None"
| "check_cells t c to_row to_col ((i, j) # ps) =
     (case grid_cell t i j of
        Inl e \<Rightarrow> Some e
      | Inr cell \<Rightarrow>
          (case bounds cell of
             (c_r0, c_c0, c_r1, c_c1) \<Rightarrow>
               if c_r0 < i \<or> c_c0 < c \<or> c_r1 > to_row \<or> c_c1 > to_col
               then Some (ValueError overlap_message)
               else check_cells t c to_row to_col ps))"

text \<open>The loop \<open>self.table[_row][_col] = new_cell\<close>, with the new cell's address.\<close>

fun assign_cells :: "nat \<Rightarrow> (int \<times> int) list \<Rightarrow> TexTable \<Rightarrow> error option \<times> TexTable" where
  "assign_cells k [] t = (None, t)"
| "assign_cells k ((i, j) # ps) t =
     (case py_pos (length (table t)) i of
        Inl e \<Rightarrow> (Some e, t)
      | Inr a \<Rightarrow>
          (case py_pos (length (table t ! a)) j of
             Inl e \<Rightarrow> (Some e, t)
           | Inr b \<Rightarrow> assign_cells k ps (t\<lparr>table := (table t)[a := (table t ! a)[b := k]]\<rparr>)))"

text \<open>
  \<open>merge(value, row, col, width, height, to_row, to_col)\<close>. The three
  \<open>ValueError(...)\<close> expressions after the index checks (no size and no end at all, both
  \<open>width\<close> and \<open>to_col\<close>, both \<open>height\<close> and \<open>to_row\<close>) build an exception and
  drop it: there is no \<open>raise\<close>, so they do nothing and the model has no branch for them.
\<close>

definition merge ::
  "string \<Rightarrow> int \<Rightarrow> int \<Rightarrow> int option \<Rightarrow> int option \<Rightarrow> int option \<Rightarrow> int option \<Rightarrow> TexTable
     \<Rightarrow> error option \<times> TexTable" where
  "merge v r c width' height' to_row' to_col' t =
     (if \<not> (0 \<le> r \<and> r < int (length (table t)))
      then (Some (ValueError (''Invalid row index: '' @ str_int r)), t)
      else if \<not> (0 \<le> c \<and> c < int (col_count t))
      then (Some (ValueError (''Invalid column index: '' @ str_int c)), t)
      else
       (case resolve_axis r height' to_row' of
          Inl e \<Rightarrow> (Some e, t)
        | Inr (to_row, h) \<Rightarrow>
         (case resolve_axis c width' to_col' of
            Inl e \<Rightarrow> (Some e, t)
          | Inr (to_col, w) \<Rightarrow>
             (if \<not> (r \<le> to_row \<and> to_row < int (length (table t)))
              then (Some (ValueError (''Invalid height: '' @ str_int h)), t)
              else if \<not> (c \<le> to_col \<and> to_col < int (col_count t))
              then (Some (ValueError (''Invalid width: '' @ str_int w)), t)
              else
               (case check_cells t c to_row to_col (slots r c to_row to_col) of
                  Some e \<Rightarrow> (Some e, t)
                | None \<Rightarrow>
                   (let t = (if h > 1 then depends_on ''multirow'' t else t)
                    in (case py_index (seps t) c of
                          Inl e \<Rightarrow> (Some e, t)
                        | Inr ls \<Rightarrow>
                           (case py_index (seps t) (to_col + 1) of
                              Inl e \<Rightarrow> (Some e, t)
                            | Inr rs \<Rightarrow>
                                assign_cells (length (cells t)) (slots r c to_row to_col)
                                  (t\<lparr>cells := cells t @ [new_cell v r c w h ls rs]\<rparr>)))))))))"

subsection \<open>\<open>render\<close>\<close>

text \<open>One element of the list \<open>rows\<close>: the text of grid row \<open>r\<close>.\<close>

definition render_row :: "TexTable \<Rightarrow> nat \<Rightarrow> nat list \<Rightarrow> error + string" where
  "render_row t r row_cells =
     (case sequence (map (\<lambda>(c, k). table_value (cells t ! k) (int r) (int c))
                         (enumerate 0 row_cells)) of
        Inl e \<Rightarrow> Inl e
      | Inr parts \<Rightarrow> Inr (removesuffix (concat parts) '' & '' @ [CHR 0x20, CHR 0x5C, CHR 0x5C]))"

definition render_rows :: "TexTable \<Rightarrow> error + string list" where
  "render_rows t = sequence (map (\<lambda>(r, row_cells). render_row t r row_cells) (enumerate 0 (table t)))"

text \<open>``Add top lines'': the loop over \<open>_lines\<close>, in the order they were recorded.\<close>

fun add_top_lines :: "(int \<times> string) list \<Rightarrow> string list \<Rightarrow> error + string list" where
  "add_top_lines [] rows = Inr rows"
| "add_top_lines ((r_idx, tline) # ls) rows =
     (if \<not> (0 \<le> r_idx \<and> r_idx < int (length rows))
      then Inl (ValueError (''Invalid line index '' @ str_int r_idx))
      else add_top_lines ls (rows[nat r_idx := tline @ '' '' @ rows ! nat r_idx]))"

text \<open>
  ``Add rules'': the loop over the sorted \<open>_rules\<close>; \<open>added\<close> counts the rules
  already inserted, and \<open>len(rows)\<close> is the length of the list as it has grown.
\<close>

fun insert_rules :: "nat \<Rightarrow> (int \<times> string) list \<Rightarrow> string list \<Rightarrow> error + string list" where
  "insert_rules added [] rows = Inr rows"
| "insert_rules added ((i, tex) # rs) rows =
     (if \<not> (0 \<le> i \<and> i < int (length rows))
      then Inl (ValueError (''Invalid rule index '' @ str_int i))
      else insert_rules (Suc added) rs (py_insert rows (i + int added) tex))"

text \<open>
  \<open>render()\<close>: the string, or the exception; and the table, whose \<open>_rules\<close> the call
  sorts in place (a stable sort on the row index) once the partial lines are placed.
\<close>

definition render :: "TexTable \<Rightarrow> (error + string) \<times> TexTable" where
  "render t =
     (case render_rows t of
        Inl e \<Rightarrow> (Inl e, t)
      | Inr rows \<Rightarrow>
      (case add_top_lines (lines t) rows of
        Inl e \<Rightarrow> (Inl e, t)
      | Inr rows \<Rightarrow>
      (let t = t\<lparr>rules := sort_key fst (rules t)\<rparr>
       in case insert_rules 0 (rules t) rows of
        Inl e \<Rightarrow> (Inl e, t)
      | Inr rows \<Rightarrow>
      (let caption_line =
             (case caption t of
                None \<Rightarrow> []
              | Some cap \<Rightarrow> if cap \<noteq> [] then CHR 0x5C # ''caption{'' @ cap @ ''}'' else [])
       in case (case label t of
                  None \<Rightarrow> Inr caption_line
                | Some lab \<Rightarrow>
                    if caption t = None
                    then Inl (ValueError ''Cannot have a label without a caption'')
                    else Inr (caption_line @ CHR 0x5C # ''label{'' @ lab @ ''}'')) of
            Inl e \<Rightarrow> (Inl e, t)
          | Inr caption_line \<Rightarrow>
              (case str_col_sty t of
                 Inl e \<Rightarrow> (Inl e, t)
               | Inr sty \<Rightarrow>
                   (Inr (join [CHR 0x0A]
                      (texcmd (cmd t @ (if star t then ''*'' else [])) 
                         (flat [Str (if centered t then CHR 0x5C # ''centering'' else []),
                                Str (if \<not> caption_after_table t then caption_line else []),
                                Lst (map Str (texcmd ''tabular'' rows None (Some sty))),
                                Str (if caption_after_table t then caption_line else [])])
                         (Some (position t)) None)), t))))))"

subsection \<open>\<open>TexTableSlice\<close> and indexing\<close>

text \<open>
  A slice keeps its rectangle and \<open>_value\<close>; the table it views is the table it is
  used with. \<open>all(cell is _cell for cell in self)\<close> visits the slots in order and
  stops at the first one that holds another object.
\<close>

record TexTableSlice =
  slice_row :: int
  slice_col :: int
  slice_to_row :: int
  slice_to_col :: int
  cached_value :: "string option"

fun all_is :: "TexTable \<Rightarrow> nat \<Rightarrow> (int \<times> int) list \<Rightarrow> error + bool" where
  "all_is t k [] = Inr True"
| "all_is t k ((i, j) # ps) =
     (case grid_ref t i j of
        Inl e \<Rightarrow> Inl e
      | Inr k' \<Rightarrow> if k' = k then all_is t k ps else Inr False)"

definition TexTableSlice_init :: "TexTable \<Rightarrow> int \<Rightarrow> int \<Rightarrow> int \<Rightarrow> int \<Rightarrow> error + TexTableSlice" where
  "TexTableSlice_init t r c to_row to_col =
     (case (if r = to_row \<and> c = to_col
            then (case grid_cell t r c of Inl e \<Rightarrow> Inl e | Inr cell \<Rightarrow> Inr (Some (raw_value cell)))
            else Inr None) of
        Inl e \<Rightarrow> Inl e
      | Inr v \<Rightarrow>
          (case grid_ref t r c of
             Inl e \<Rightarrow> Inl e
           | Inr k \<Rightarrow>
               (case all_is t k (slots r c to_row to_col) of
                  Inl e \<Rightarrow> Inl e
                | Inr same \<Rightarrow>
                    Inr \<lparr>slice_row = r, slice_col = c, slice_to_row = to_row,
                         slice_to_col = to_col,
                         cached_value = (if same then Some (raw_value (cells t ! k)) else v)\<rparr>)))"

text \<open>The property \<open>TexTableSlice.value\<close>.\<close>

definition slice_value :: "TexTableSlice \<Rightarrow> error + string" where
  "slice_value s =
     (case cached_value s of
        Some v \<Rightarrow> Inr v
      | None \<Rightarrow> Inl (ValueError ''Table slice has multiple values''))"

text \<open>\<open>TexTable.__getitem__\<close>.\<close>

definition table_getitem :: "TexTable \<Rightarrow> index \<Rightarrow> index \<Rightarrow> error + TexTableSlice" where
  "table_getitem t i j =
     (case get_indexing_bounds t i j of
        Inl e \<Rightarrow> Inl e
      | Inr (r, c, to_row, to_col) \<Rightarrow> TexTableSlice_init t r c to_row to_col)"

text \<open>
  A loop over the slots of a rectangle that changes the cell object each slot refers
  to. A cell that several slots share is changed once for each of them.
\<close>

fun update_cells ::
  "(TexTableCell \<Rightarrow> TexTableCell) \<Rightarrow> (int \<times> int) list \<Rightarrow> TexTable \<Rightarrow> error option \<times> TexTable" where
  "update_cells f [] t = (None, t)"
| "update_cells f ((i, j) # ps) t =
     (case grid_ref t i j of
        Inl e \<Rightarrow> (Some e, t)
      | Inr k \<Rightarrow> update_cells f ps (t\<lparr>cells := (cells t)[k := f (cells t ! k)]\<rparr>))"

definition slice_slots :: "TexTableSlice \<Rightarrow> (int \<times> int) list" where
  "slice_slots s = slots (slice_row s) (slice_col s) (slice_to_row s) (slice_to_col s)"

definition set_value :: "TexTableSlice \<Rightarrow> string \<Rightarrow> TexTable \<Rightarrow> error option \<times> TexTable" where
  "set_value s v t = update_cells (\<lambda>c. c\<lparr>raw_value := v\<rparr>) (slice_slots s) t"

definition for_each :: "TexTableSlice \<Rightarrow> (string \<Rightarrow> string) \<Rightarrow> TexTable \<Rightarrow> error option \<times> TexTable" where
  "for_each s func t = update_cells (\<lambda>c. c\<lparr>raw_value := func (raw_value c)\<rparr>) (slice_slots s) t"

definition set_bold :: "TexTableSlice \<Rightarrow> bool \<Rightarrow> TexTable \<Rightarrow> error option \<times> TexTable" where
  "set_bold s val t = update_cells (\<lambda>c. c\<lparr>bold := val\<rparr>) (slice_slots s) t"

definition set_italic :: "TexTableSlice \<Rightarrow> bool \<Rightarrow> TexTable \<Rightarrow> error option \<times> TexTable" where
  "set_italic s val t = update_cells (\<lambda>c. c\<lparr>italic := val\<rparr>) (slice_slots s) t"

definition set_background_color :: "TexTableSlice \<Rightarrow> string \<Rightarrow> TexTable \<Rightarrow> error option \<times> TexTable" where
  "set_background_color s val t =
     update_cells (\<lambda>c. c\<lparr>background_color := Some val\<rparr>) (slice_slots s)
       (depends_on ''xcolor'' (depends_on ''colortbl'' t))"

text \<open>\<open>set_rotation(degree, options)\<close>; \<open>degree_text\<close> is the text \<open>str(degree)\<close>.\<close>

definition set_rotation :: "TexTableSlice \<Rightarrow> string \<Rightarrow> string \<Rightarrow> TexTable \<Rightarrow> error option \<times> TexTable" where
  "set_rotation s degree_text options t =
     update_cells (\<lambda>c. c\<lparr>rotate_degree := Some degree_text, rotate_options := Some options\<rparr>)
       (slice_slots s) (depends_on ''graphicx'' t)"

text \<open>\<open>TexTable.__setitem__\<close>; \<open>v\<close> is the text \<open>str(value)\<close>.\<close>

definition table_setitem :: "index \<Rightarrow> index \<Rightarrow> string \<Rightarrow> TexTable \<Rightarrow> error option \<times> TexTable" where
  "table_setitem i j v t =
     (case (i, j) of
        (IntIdx a, IntIdx b) \<Rightarrow>
          (case grid_ref t a b of
             Inl e \<Rightarrow> (Some e, t)
           | Inr k \<Rightarrow> (None, t\<lparr>cells := (cells t)[k := (cells t ! k)\<lparr>raw_value := v\<rparr>]\<rparr>))
      | _ \<Rightarrow>
          (case get_indexing_bounds t i j of
             Inl e \<Rightarrow> (Some e, t)
           | Inr (r, c, to_row, to_col) \<Rightarrow> merge v r c None None (Some to_row) (Some to_col) t))"

section \<open>Sequences of mutations\<close>

datatype mutation =
    AddRow "string option list" int
  | AddCol "string list" int
  | Merge string int int "int option" "int option" "int option" "int option"
  | AddRule "int option" RuleType
  | AddCline "int option" int "int option"
  | AddCmidrule "int option" int "int option" string
  | SetItem index index string
  | SetValue TexTableSlice string
  | ForEach TexTableSlice "string \<Rightarrow> string"
  | SetBold TexTableSlice bool
  | SetItalic TexTableSlice bool
  | SetBackgroundColor TexTableSlice string
  | SetRotation TexTableSlice string string

fun step :: "mutation \<Rightarrow> TexTable \<Rightarrow> error option \<times> TexTable" where
  "step (AddRow values start) t = add_row values start t"
| "step (AddCol values start) t = add_col values start t"
| "step (Merge v r c w h to_row to_col) t = merge v r c w h to_row to_col t"
| "step (AddRule r kind) t = add_rule r kind t"
| "step (AddCline r from_col to_col) t = add_cline r from_col to_col t"
| "step (AddCmidrule r from_col to_col options) t = add_cmidrule r from_col to_col options t"
| "step (SetItem i j v) t = table_setitem i j v t"
| "step (SetValue s v) t = set_value s v t"
| "step (ForEach s func) t = for_each s func t"
| "step (SetBold s val) t = set_bold s val t"
| "step (SetItalic s val) t = set_italic s val t"
| "step (SetBackgroundColor s val) t = set_background_color s val t"
| "step (SetRotation s degree_text options) t = set_rotation s degree_text options t"

text \<open>
  The table after a sequence of calls. A call that raises leaves the table as it was at
  the \<open>raise\<close>, and the next call goes on from there.
\<close>

fun run :: "TexTable \<Rightarrow> mutation list \<Rightarrow> TexTable" where
  "run t [] = t"
| "run t (m # ms) = run (snd (step m t)) ms"

text \<open>
  The invariant as the specification states it: \<open>col_count\<close> is the number of column
  styles and the number of separators minus one, and every grid row has \<open>col_count\<close>
  slots.
\<close>

definition stated_invariant :: "TexTable \<Rightarrow> bool" where
  "stated_invariant t =
     (col_count t = length (col_styles t)
      \<and> int (col_count t) = int (length (seps t)) - 1
      \<and> list_all (\<lambda>rw. length rw = col_count t) (table t))"

text \<open>
  The shape the code keeps: no separator while there is no column, one more separator
  than columns afterwards, and every grid row with \<open>col_count\<close> slots.
\<close>

definition grid_shape :: "TexTable \<Rightarrow> bool" where
  "grid_shape t =
     (length (seps t) = (if col_styles t = [] then 0 else length (col_styles t) + 1)
      \<and> list_all (\<lambda>rw. length rw = col_count t) (table t))"

text \<open>
  A call of \<open>add_col\<close> with no more values (after the padding by \<open>start\<close>) than the
  table has rows; every other call qualifies.
\<close>

fun within_rows :: "mutation \<Rightarrow> TexTable \<Rightarrow> bool" where
  "within_rows (AddCol values start) t =
     (length values + (if start > 0 then nat start else 0) \<le> row_count t)"
| "within_rows m t = True"

fun all_within_rows :: "TexTable \<Rightarrow> mutation list \<Rightarrow> bool" where
  "all_within_rows t [] = True"
| "all_within_rows t (m # ms) = (within_rows m t \<and> all_within_rows (snd (step m t)) ms)"

text \<open>
  Every slot of the grid holds a cell whose rectangle contains the slot (the
  assertions of \<open>table_value\<close> hold wherever \<open>render\<close> calls it).
\<close>

definition slot_covered :: "TexTable \<Rightarrow> nat \<Rightarrow> nat \<Rightarrow> nat \<Rightarrow> bool" where
  "slot_covered t r c k =
     (row (cells t ! k) \<le> int r \<and> int r < row (cells t ! k) + height (cells t ! k)
      \<and> col (cells t ! k) \<le> int c \<and> int c < col (cells t ! k) + width (cells t ! k))"

definition cells_cover :: "TexTable \<Rightarrow> bool" where
  "cells_cover t =
     list_all (\<lambda>(r, rw). list_all (\<lambda>(c, k). slot_covered t r c k) (enumerate 0 rw))
       (enumerate 0 (table t))"

text \<open>
  Every address in the grid is the address of a cell object in the store. In Python a
  reference always leads to an object; in the model this is a property of the table.
\<close>

definition refs_valid :: "TexTable \<Rightarrow> bool" where
  "refs_valid t = list_all (\<lambda>rw. list_all (\<lambda>k. k < length (cells t)) rw) (table t)"

definition well_formed :: "TexTable \<Rightarrow> bool" where
  "well_formed t = (refs_valid t \<and> cells_cover t)"

section \<open>Properties of \<open>TexTableCell\<close>\<close>

lemma cell_getitem_in_bounds:
  assumes "row c \<le> r" "r < row c + height c" "col c \<le> cl" "cl < col c + width c"
  shows "\<exists>s. cell_getitem c r cl = Inr s"
  using assms by (simp add: cell_getitem_def Let_def)

text \<open>
  Claim C1. For a slot inside the cell's rectangle, \<open>table_value\<close> is the text of
  \<open>__getitem__\<close> (the spec's \<open>render_at\<close>) followed by the separator \<open>" & "\<close> exactly
  when the slot is not on the anchor row or is in the rightmost column of the span; the
  text is returned unchanged exactly when the slot is on the anchor row and not in the
  rightmost column.
\<close>

theorem table_value_separator:
  assumes "row c \<le> r" "r < row c + height c" "col c \<le> cl" "cl < col c + width c"
  shows "\<exists>s. cell_getitem c r cl = Inr s
           \<and> (table_value c r cl = Inr (s @ '' & '')) = (r \<noteq> row c \<or> cl = col c + width c - 1)
           \<and> (table_value c r cl = Inr s) = (r = row c \<and> cl \<noteq> col c + width c - 1)"
proof -
  from cell_getitem_in_bounds [OF assms] obtain s where s: "cell_getitem c r cl = Inr s"
    by blast
  have "table_value c r cl
          = Inr (if r \<noteq> row c \<or> cl = col c + width c - 1 then s @ '' & '' else s)"
    using assms s by (simp add: table_value_def)
  then show ?thesis using s by auto
qed

text \<open>
  A 2x2 cell anchored at (0, 0): the slot below the anchor renders as the separator
  alone, the anchor slot as the nested multicolumn and multirow commands with no
  separator.
\<close>

theorem table_value_separator_witness:
  "table_value (new_cell ''X'' 0 0 2 2 [] []) 1 0 = Inr '' & ''
   \<and> table_value (new_cell ''X'' 0 0 2 2 [] []) 0 0
       = Inr (CHR 0x5C # ''multicolumn{2}{c}{'' @ CHR 0x5C # ''multirow{2}{*}{X}}'')"
proof -
  let ?c = "new_cell ''X'' 0 0 2 2 [] []"
  have g1: "cell_getitem ?c 1 0 = Inr []"
    by code_simp
  have g0: "cell_getitem ?c 0 0
              = Inr (CHR 0x5C # ''multicolumn{2}{c}{'' @ CHR 0x5C # ''multirow{2}{*}{X}}'')"
    by code_simp
  have b: "row ?c = 0" "col ?c = 0" "width ?c = 2" "height ?c = 2"
    by (simp_all add: new_cell_def)
  from table_value_separator [of ?c 1 0] g1 b
  have "table_value ?c 1 0 = Inr '' & ''" by simp
  moreover from table_value_separator [of ?c 0 0] g0 b
  have "table_value ?c 0 0
          = Inr (CHR 0x5C # ''multicolumn{2}{c}{'' @ CHR 0x5C # ''multirow{2}{*}{X}}'')"
    by simp
  ultimately show ?thesis by simp
qed

section \<open>Rendering concrete tables\<close>

text \<open>
  Claim C7. The default table with the two rows A, B and C, D renders as the figure
  environment with the option \<open>h!\<close>, holding the centering command, an empty caption
  line, the tabular environment with the argument \<open>cc\<close> and the rows \<open>A & B \\\<close> and
  \<open>C & D \\\<close>, and a second empty caption line; the lines are joined by newlines and
  every body line is indented by four spaces.
\<close>

theorem render_two_by_two:
  "fst (render (run TexTable_default
          [AddRow [Some ''A'', Some ''B''] 0, AddRow [Some ''C'', Some ''D''] 0]))
   = Inr (join [CHR 0x0A]
       [CHR 0x5C # ''begin{figure}[h!]'',
        ''    '' @ CHR 0x5C # ''centering'',
        ''    '',
        ''    '' @ CHR 0x5C # ''begin{tabular}{cc}'',
        ''        A & B '' @ [CHR 0x5C, CHR 0x5C],
        ''        C & D '' @ [CHR 0x5C, CHR 0x5C],
        ''    '' @ CHR 0x5C # ''end{tabular}'',
        ''    '',
        CHR 0x5C # ''end{figure}''])"
  by code_simp

text \<open>
  Claim C4. On the default table with three rows, \<open>add_rule\<close> with \<open>row=None\<close> and the
  kind \<open>BOTTOM\<close> records the rule at index 3, and \<open>render\<close> then raises
  \<open>ValueError("Invalid rule index 3")\<close>: the index is compared with the three rows, no
  rule having been inserted before it.
\<close>

theorem bottom_rule_after_three_rows:
  "fst (render (run TexTable_default
     [AddRow [Some ''A''] 0, AddRow [Some ''B''] 0, AddRow [Some ''C''] 0, AddRule None BOTTOM]))
   = Inl (ValueError ''Invalid rule index 3'')"
  by code_simp

section \<open>\<open>merge\<close>\<close>

text \<open>
  Claim C3. On the table with the one row A, B, the call
  \<open>merge("X", 0, 0, width=1, height=1, to_col=1)\<close> gives both \<open>width\<close> and \<open>to_col\<close>.
  It does not raise: \<open>to_col\<close> wins, and both slots of the row now hold the new cell.
\<close>

theorem merge_width_and_to_col:
  "fst (merge ''X'' 0 0 (Some 1) (Some 1) None (Some 1)
          (run TexTable_default [AddRow [Some ''A'', Some ''B''] 0])) = None
   \<and> table (snd (merge ''X'' 0 0 (Some 1) (Some 1) None (Some 1)
          (run TexTable_default [AddRow [Some ''A'', Some ''B''] 0]))) = [[2, 2]]
   \<and> table (run TexTable_default [AddRow [Some ''A'', Some ''B''] 0]) = [[0, 1]]"
  by code_simp

section \<open>Loops of \<open>render\<close>\<close>

lemma join_snoc: "join sep (xs @ [y]) = concat (map (\<lambda>x. x @ sep) xs) @ y"
proof (induction xs)
  case Nil
  then show ?case by simp
next
  case (Cons x xs)
  then show ?case by (cases xs) simp_all
qed

lemma add_top_lines_rows:
  assumes "\<forall>p\<in>set ls. 0 \<le> fst p \<and> fst p < int (length rows)"
  shows "\<exists>rows'. add_top_lines ls rows = Inr rows' \<and> length rows' = length rows
           \<and> (\<forall>r<length rows.
                 rows' ! r = concat (map (\<lambda>l. l @ '' '')
                                 (rev (map snd (filter (\<lambda>p. fst p = int r) ls)))) @ rows ! r)"
  using assms
proof (induction ls arbitrary: rows)
  case Nil
  then show ?case by simp
next
  case (Cons p ls)
  obtain i l where p: "p = (i, l)" by (cases p)
  let ?rows1 = "rows[nat i := l @ '' '' @ rows ! nat i]"
  from Cons.prems p have i: "0 \<le> i" "i < int (length rows)" by auto
  from Cons.prems have "\<forall>p\<in>set ls. 0 \<le> fst p \<and> fst p < int (length ?rows1)" by simp
  from Cons.IH [OF this] obtain rows' where
    r1: "add_top_lines ls ?rows1 = Inr rows'" and
    r2: "length rows' = length rows" and
    r3: "\<forall>r<length rows. rows' ! r = concat (map (\<lambda>l. l @ '' '')
           (rev (map snd (filter (\<lambda>p. fst p = int r) ls)))) @ ?rows1 ! r"
    by auto
  have "add_top_lines (p # ls) rows = Inr rows'"
    using p i r1 by simp
  moreover have "rows' ! r = concat (map (\<lambda>l. l @ '' '')
           (rev (map snd (filter (\<lambda>p. fst p = int r) (p # ls))))) @ rows ! r"
    if r: "r < length rows" for r
  proof (cases "i = int r")
    case True
    then have "nat i = r" by simp
    with r3 r True p show ?thesis by simp
  next
    case False
    then have "nat i \<noteq> r" using i by auto
    with r3 r False p show ?thesis by simp
  qed
  ultimately show ?case using r2 by blast
qed

lemma add_top_lines_fails_iff:
  "(\<exists>e. add_top_lines ls rows = Inl e)
     \<longleftrightarrow> (\<exists>p\<in>set ls. \<not> (0 \<le> fst p \<and> fst p < int (length rows)))"
proof (induction ls arbitrary: rows)
  case Nil
  then show ?case by simp
next
  case (Cons p ls)
  obtain i l where p: "p = (i, l)" by (cases p)
  show ?case
  proof (cases "0 \<le> i \<and> i < int (length rows)")
    case True
    with p have "add_top_lines (p # ls) rows
                   = add_top_lines ls (rows[nat i := l @ '' '' @ rows ! nat i])"
      by simp
    with Cons.IH [of "rows[nat i := l @ '' '' @ rows ! nat i]"] True p show ?thesis by simp
  next
    case False
    with p show ?thesis by auto
  qed
qed

lemma add_top_lines_length:
  "add_top_lines ls rows = Inr rows1 \<Longrightarrow> length rows1 = length rows"
proof (induction ls arbitrary: rows)
  case Nil
  then show ?case by simp
next
  case (Cons p ls)
  obtain i l where p: "p = (i, l)" by (cases p)
  from Cons.prems p
  have "add_top_lines ls (rows[nat i := l @ '' '' @ rows ! nat i]) = Inr rows1"
    by (simp split: if_splits)
  from Cons.IH [OF this] show ?case by simp
qed

lemma length_py_insert: "length (py_insert rows i v) = Suc (length rows)"
  by (simp add: py_insert_def Let_def)

lemma insert_rules_fails_iff:
  "(\<exists>e. insert_rules added rs rows = Inl e)
     \<longleftrightarrow> (\<exists>k<length rs. \<not> (0 \<le> fst (rs ! k) \<and> fst (rs ! k) < int (length rows) + int k))"
proof (induction rs arbitrary: added rows)
  case Nil
  then show ?case by simp
next
  case (Cons p rs)
  obtain i tex where p: "p = (i, tex)" by (cases p)
  show ?case
  proof (cases "0 \<le> i \<and> i < int (length rows)")
    case True
    let ?rows1 = "py_insert rows (i + int added) tex"
    have "(\<exists>e. insert_rules added (p # rs) rows = Inl e)
            \<longleftrightarrow> (\<exists>e. insert_rules (Suc added) rs ?rows1 = Inl e)"
      using True p by simp
    also have "\<dots> \<longleftrightarrow> (\<exists>k<length rs. \<not> (0 \<le> fst (rs ! k)
                   \<and> fst (rs ! k) < int (length rows) + int (Suc k)))"
      by (simp add: Cons.IH length_py_insert add.assoc add.left_commute)
    also have "\<dots> \<longleftrightarrow> (\<exists>k<length (p # rs). \<not> (0 \<le> fst ((p # rs) ! k)
                   \<and> fst ((p # rs) ! k) < int (length rows) + int k))"
    proof
      assume "\<exists>k<length rs. \<not> (0 \<le> fst (rs ! k) \<and> fst (rs ! k) < int (length rows) + int (Suc k))"
      then obtain k where "k < length rs"
        "\<not> (0 \<le> fst (rs ! k) \<and> fst (rs ! k) < int (length rows) + int (Suc k))" by blast
      then have "Suc k < length (p # rs)"
        "\<not> (0 \<le> fst ((p # rs) ! Suc k) \<and> fst ((p # rs) ! Suc k) < int (length rows) + int (Suc k))"
        by simp_all
      then show "\<exists>k<length (p # rs). \<not> (0 \<le> fst ((p # rs) ! k)
                   \<and> fst ((p # rs) ! k) < int (length rows) + int k)" by blast
    next
      assume "\<exists>k<length (p # rs). \<not> (0 \<le> fst ((p # rs) ! k)
                   \<and> fst ((p # rs) ! k) < int (length rows) + int k)"
      then obtain k where k: "k < length (p # rs)"
        "\<not> (0 \<le> fst ((p # rs) ! k) \<and> fst ((p # rs) ! k) < int (length rows) + int k)" by blast
      with True p obtain k' where "k = Suc k'" by (cases k) auto
      with k show "\<exists>k<length rs. \<not> (0 \<le> fst (rs ! k)
                   \<and> fst (rs ! k) < int (length rows) + int (Suc k))" by auto
    qed
    finally show ?thesis .
  next
    case False
    then have "\<exists>e. insert_rules added (p # rs) rows = Inl e" using p by auto
    moreover have "\<exists>k<length (p # rs). \<not> (0 \<le> fst ((p # rs) ! k)
                   \<and> fst ((p # rs) ! k) < int (length rows) + int k)"
      using False p by (intro exI [of _ 0]) simp
    ultimately show ?thesis by blast
  qed
qed

lemma sequence_Inr:
  assumes "\<forall>x\<in>set xs. \<exists>y. x = Inr y"
  shows "\<exists>ys. sequence xs = Inr ys \<and> length ys = length xs"
  using assms
proof (induction xs)
  case Nil
  then show ?case by simp
next
  case (Cons x xs)
  then obtain y where "x = Inr y" by auto
  moreover from Cons obtain ys where "sequence xs = Inr ys" "length ys = length xs" by auto
  ultimately show ?case by simp
qed

lemma table_value_covered:
  assumes "slot_covered t r c k"
  shows "\<exists>s. table_value (cells t ! k) (int r) (int c) = Inr s"
  using assms by (simp add: slot_covered_def table_value_def cell_getitem_def Let_def)

lemma render_row_covered:
  assumes "list_all (\<lambda>(c, k). slot_covered t r c k) (enumerate 0 rw)"
  shows "\<exists>s. render_row t r rw = Inr s"
proof -
  have "\<forall>x\<in>set (map (\<lambda>(c, k). table_value (cells t ! k) (int r) (int c)) (enumerate 0 rw)).
          \<exists>y. x = Inr y"
    using assms table_value_covered by (fastforce simp: list_all_iff)
  from sequence_Inr [OF this] show ?thesis by (auto simp: render_row_def)
qed

lemma render_rows_covered:
  assumes "cells_cover t"
  shows "\<exists>rows. render_rows t = Inr rows \<and> length rows = row_count t"
proof -
  have "\<forall>x\<in>set (map (\<lambda>(r, row_cells). render_row t r row_cells) (enumerate 0 (table t))).
          \<exists>y. x = Inr y"
    using assms render_row_covered by (fastforce simp: cells_cover_def list_all_iff)
  from sequence_Inr [OF this] show ?thesis by (auto simp: render_rows_def row_count_def)
qed

lemma str_col_sty_fails_iff: "(\<exists>e. str_col_sty t = Inl e) \<longleftrightarrow> seps t = []"
  by (cases "seps t") (auto simp: str_col_sty_def py_index_def py_pos_def Let_def)

text \<open>
  Claim C6. When every recorded partial line has a row index inside the rows, the loop
  that places them succeeds, and row \<open>r\<close> then starts with the texts recorded for
  \<open>r\<close>, the last recorded first (the reverse of the registration order), joined
  by single spaces and followed by a space and the row's cell content.
\<close>

theorem partial_lines_order:
  assumes "render_rows t = Inr rows"
      and "\<forall>p\<in>set (lines t). 0 \<le> fst p \<and> fst p < int (length rows)"
  shows "\<exists>rows'. add_top_lines (lines t) rows = Inr rows' \<and> length rows' = length rows
           \<and> (\<forall>r<length rows.
                 rows' ! r = join '' '' (rev (map snd (filter (\<lambda>p. fst p = int r) (lines t)))
                                          @ [rows ! r]))"
  using add_top_lines_rows [OF assms(2)] by (simp add: join_snoc)

text \<open>
  One row \<open>A\<close>, a cline and then a cmidrule recorded for row 0: the cmidrule comes
  first in the row.
\<close>

theorem partial_lines_order_witness:
  "\<exists>rows'. add_top_lines
      (lines (run TexTable_default
         [AddRow [Some ''A''] 0, AddCline (Some 0) 0 (Some 0), AddCmidrule (Some 0) 0 (Some 0) ''lr'']))
      [''A '' @ [CHR 0x5C, CHR 0x5C]] = Inr rows'
    \<and> rows' ! 0 = CHR 0x5C # ''cmidrule(lr){1-1} '' @ CHR 0x5C # ''cline{1-1} A '' @ [CHR 0x5C, CHR 0x5C]"
proof -
  let ?t = "run TexTable_default
         [AddRow [Some ''A''] 0, AddCline (Some 0) 0 (Some 0), AddCmidrule (Some 0) 0 (Some 0) ''lr'']"
  have rows: "render_rows ?t = Inr [''A '' @ [CHR 0x5C, CHR 0x5C]]"
    by code_simp
  have ls: "lines ?t = [(0, CHR 0x5C # ''cline{1-1}''), (0, CHR 0x5C # ''cmidrule(lr){1-1}'')]"
    by code_simp
  have "\<forall>p\<in>set (lines ?t). 0 \<le> fst p \<and> fst p < int (length [''A '' @ [CHR 0x5C, CHR 0x5C]])"
    unfolding ls by simp
  from partial_lines_order [OF rows this] show ?thesis
    unfolding ls by auto
qed

text \<open>
  The same table rendered: the two partial lines were recorded as cline, cmidrule, and
  the row reads cmidrule, cline, A.
\<close>

theorem partial_lines_registration_order_counterexample:
  "lines (run TexTable_default
     [AddRow [Some ''A''] 0, AddCline (Some 0) 0 (Some 0), AddCmidrule (Some 0) 0 (Some 0) ''lr''])
     = [(0, CHR 0x5C # ''cline{1-1}''), (0, CHR 0x5C # ''cmidrule(lr){1-1}'')]
   \<and> fst (render (run TexTable_default
     [AddRow [Some ''A''] 0, AddCline (Some 0) 0 (Some 0), AddCmidrule (Some 0) 0 (Some 0) ''lr'']))
     = Inr (join [CHR 0x0A]
       [CHR 0x5C # ''begin{figure}[h!]'',
        ''    '' @ CHR 0x5C # ''centering'',
        ''    '',
        ''    '' @ CHR 0x5C # ''begin{tabular}{c}'',
        ''        '' @ CHR 0x5C # ''cmidrule(lr){1-1} '' @ CHR 0x5C # ''cline{1-1} A ''
           @ [CHR 0x5C, CHR 0x5C],
        ''    '' @ CHR 0x5C # ''end{tabular}'',
        ''    '',
        CHR 0x5C # ''end{figure}''])"
  by code_simp

section \<open>When \<open>render\<close> fails\<close>

lemma render_fails_iff_stages:
  assumes rows: "render_rows t = Inr rows"
  shows "(\<exists>e. fst (render t) = Inl e) \<longleftrightarrow>
           (\<exists>e. add_top_lines (lines t) rows = Inl e)
         \<or> (\<exists>rows1. add_top_lines (lines t) rows = Inr rows1
               \<and> (\<exists>e. insert_rules 0 (sort_key fst (rules t)) rows1 = Inl e))
         \<or> (label t \<noteq> None \<and> caption t = None)
         \<or> (\<exists>e. str_col_sty t = Inl e)"
proof (cases "add_top_lines (lines t) rows")
  case (Inl e)
  with rows show ?thesis by (simp add: render_def)
next
  case rows1: (Inr rows1)
  show ?thesis
  proof (cases "insert_rules 0 (sort_key fst (rules t)) rows1")
    case (Inl e)
    with rows rows1 show ?thesis by (simp add: render_def)
  next
    case rows2: (Inr rows2)
    show ?thesis
    proof (cases "label t \<noteq> None \<and> caption t = None")
      case True
      with rows rows1 rows2 show ?thesis by (auto simp: render_def)
    next
      case False
      show ?thesis
      proof (cases "str_col_sty t")
        case (Inl e)
        have sty: "str_col_sty (t\<lparr>rules := sort_key fst (rules t)\<rparr>) = Inl e"
          using Inl by (simp add: str_col_sty_def)
        from rows rows1 rows2 False sty Inl show ?thesis
          by (auto simp: render_def Let_def split: option.splits)
      next
        case (Inr sty)
        have sty: "str_col_sty (t\<lparr>rules := sort_key fst (rules t)\<rparr>) = Inr sty"
          using Inr by (simp add: str_col_sty_def)
        from rows rows1 rows2 False sty Inr show ?thesis
          by (auto simp: render_def Let_def split: option.splits)
      qed
    qed
  qed
qed

lemma render_index_error:
  assumes "render_rows t = Inr rows"
      and "add_top_lines (lines t) rows = Inr rows1"
      and "insert_rules 0 (sort_key fst (rules t)) rows1 = Inr rows2"
      and "\<not> (label t \<noteq> None \<and> caption t = None)"
      and "seps t = []"
  shows "fst (render t) = Inl IndexError"
proof -
  have "str_col_sty (t\<lparr>rules := sort_key fst (rules t)\<rparr>) = Inl IndexError"
    using assms(5) by (simp add: str_col_sty_def py_index_def py_pos_def)
  with assms show ?thesis
    by (auto simp: render_def Let_def split: option.splits)
qed

lemma render_no_separators_fails:
  assumes "seps t = []"
  shows "\<exists>e. fst (render t) = Inl e"
proof (cases "render_rows t")
  case (Inl e)
  then show ?thesis by (simp add: render_def)
next
  case (Inr rows)
  from assms have "\<exists>e. str_col_sty t = Inl e" by (simp add: str_col_sty_fails_iff)
  with render_fails_iff_stages [OF Inr] show ?thesis by blast
qed

text \<open>
  The exact condition, for a table whose cells cover their slots: a partial line outside
  the rows, a rule that fails the check against the rows plus the rules inserted
  before it (the \<open>k\<close>-th rule in sorted order is compared with \<open>row_count + k\<close>),
  a label without a caption, or no separator at all.
\<close>

lemma render_fails_iff_exact:
  assumes "cells_cover t"
  shows "(\<exists>e. fst (render t) = Inl e) \<longleftrightarrow>
           (\<exists>p\<in>set (lines t). \<not> (0 \<le> fst p \<and> fst p < int (row_count t)))
         \<or> (\<exists>k<length (rules t).
               \<not> (0 \<le> fst (sort_key fst (rules t) ! k)
                  \<and> fst (sort_key fst (rules t) ! k) < int (row_count t) + int k))
         \<or> (label t \<noteq> None \<and> caption t = None)
         \<or> seps t = []"
proof -
  from render_rows_covered [OF assms] obtain rows where
    rows: "render_rows t = Inr rows" and len: "length rows = row_count t" by blast
  show ?thesis
  proof (cases "add_top_lines (lines t) rows")
    case (Inl e)
    then have "\<exists>p\<in>set (lines t). \<not> (0 \<le> fst p \<and> fst p < int (row_count t))"
      using add_top_lines_fails_iff [of "lines t" rows] len by auto
    moreover have "\<exists>e. fst (render t) = Inl e"
      using render_fails_iff_stages [OF rows] Inl by blast
    ultimately show ?thesis by blast
  next
    case (Inr rows1)
    then have no_line: "\<not> (\<exists>p\<in>set (lines t). \<not> (0 \<le> fst p \<and> fst p < int (row_count t)))"
      using add_top_lines_fails_iff [of "lines t" rows] len by auto
    have len1: "length rows1 = row_count t"
      using add_top_lines_length [OF Inr] len by simp
    have "(\<exists>e. insert_rules 0 (sort_key fst (rules t)) rows1 = Inl e)
            \<longleftrightarrow> (\<exists>k<length (rules t).
                  \<not> (0 \<le> fst (sort_key fst (rules t) ! k)
                     \<and> fst (sort_key fst (rules t) ! k) < int (row_count t) + int k))"
      using insert_rules_fails_iff [of 0 "sort_key fst (rules t)" rows1] len1 by simp
    with render_fails_iff_stages [OF rows] Inr no_line show ?thesis
      by (simp add: str_col_sty_fails_iff)
  qed
qed

text \<open>
  Claim C5. For a table whose cells cover their slots and in which no rule index lies
  in the range from \<open>row_count\<close> up to \<open>row_count\<close> plus the number of recorded
  rules (where the outcome depends on how many rules are sorted before it),
  \<open>render\<close> fails exactly when a partial line or a rule has a row index outside
  \<open>[0, row_count)\<close>, or a label is set without a caption, or the separator list is
  empty (the table has no column); otherwise it returns the rendered string.
\<close>

theorem render_failure_conditions:
  assumes "cells_cover t"
      and "\<forall>p\<in>set (rules t). fst p < int (row_count t)
                              \<or> int (row_count t) + int (length (rules t)) \<le> fst p"
  shows "((\<exists>e. fst (render t) = Inl e) \<longleftrightarrow>
            (\<exists>p\<in>set (lines t). \<not> (0 \<le> fst p \<and> fst p < int (row_count t)))
          \<or> (\<exists>p\<in>set (rules t). \<not> (0 \<le> fst p \<and> fst p < int (row_count t)))
          \<or> (label t \<noteq> None \<and> caption t = None)
          \<or> seps t = [])
       \<and> ((\<exists>e. fst (render t) = Inl e) \<or> (\<exists>s. fst (render t) = Inr s))"
proof -
  let ?rs = "sort_key fst (rules t)"
  have set_rs: "set ?rs = set (rules t)" and len_rs: "length ?rs = length (rules t)"
    by simp_all
  have "(\<exists>k<length (rules t). \<not> (0 \<le> fst (?rs ! k) \<and> fst (?rs ! k) < int (row_count t) + int k))
          \<longleftrightarrow> (\<exists>p\<in>set (rules t). \<not> (0 \<le> fst p \<and> fst p < int (row_count t)))"
  proof
    assume "\<exists>k<length (rules t). \<not> (0 \<le> fst (?rs ! k) \<and> fst (?rs ! k) < int (row_count t) + int k)"
    then obtain k where k: "k < length (rules t)"
      "\<not> (0 \<le> fst (?rs ! k) \<and> fst (?rs ! k) < int (row_count t) + int k)" by blast
    from k(1) len_rs have "?rs ! k \<in> set ?rs" by (metis nth_mem)
    with set_rs have "?rs ! k \<in> set (rules t)" by simp
    moreover from k(2) have "\<not> (0 \<le> fst (?rs ! k) \<and> fst (?rs ! k) < int (row_count t))"
      by auto
    ultimately show "\<exists>p\<in>set (rules t). \<not> (0 \<le> fst p \<and> fst p < int (row_count t))"
      by blast
  next
    assume "\<exists>p\<in>set (rules t). \<not> (0 \<le> fst p \<and> fst p < int (row_count t))"
    then obtain p where p: "p \<in> set (rules t)"
      "\<not> (0 \<le> fst p \<and> fst p < int (row_count t))" by blast
    from p(1) set_rs have "p \<in> set ?rs" by simp
    then obtain k where k: "k < length ?rs" "?rs ! k = p" by (metis in_set_conv_nth)
    from p assms(2) have "fst p < 0 \<or> int (row_count t) + int (length (rules t)) \<le> fst p"
      by fastforce
    with k len_rs have "\<not> (0 \<le> fst (?rs ! k) \<and> fst (?rs ! k) < int (row_count t) + int k)"
      by auto
    with k len_rs show "\<exists>k<length (rules t).
        \<not> (0 \<le> fst (?rs ! k) \<and> fst (?rs ! k) < int (row_count t) + int k)" by auto
  qed
  with render_fails_iff_exact [OF assms(1)]
  have "(\<exists>e. fst (render t) = Inl e) \<longleftrightarrow>
            (\<exists>p\<in>set (lines t). \<not> (0 \<le> fst p \<and> fst p < int (row_count t)))
          \<or> (\<exists>p\<in>set (rules t). \<not> (0 \<le> fst p \<and> fst p < int (row_count t)))
          \<or> (label t \<noteq> None \<and> caption t = None)
          \<or> seps t = []" by simp
  moreover have "(\<exists>e. fst (render t) = Inl e) \<or> (\<exists>s. fst (render t) = Inr s)"
    by (cases "fst (render t)") auto
  ultimately show ?thesis by blast
qed

text \<open>
  A one-row table with a cline recorded for row 5 fails to render; the same table with
  a top rule recorded for row 0 renders.
\<close>

theorem render_failure_conditions_witness:
  "(\<exists>e. fst (render (run TexTable_default [AddRow [Some ''A''] 0, AddCline (Some 5) 0 None])) = Inl e)
   \<and> (\<exists>s. fst (render (run TexTable_default [AddRow [Some ''A''] 0, AddRule (Some 0) TOP])) = Inr s)"
proof -
  define t where "t = run TexTable_default [AddRow [Some ''A''] 0, AddCline (Some 5) 0 None]"
  define u where "u = run TexTable_default [AddRow [Some ''A''] 0, AddRule (Some 0) TOP]"
  have t: "cells_cover t" "rules t = []" "lines t = [(5, CHR 0x5C # ''cline{1-1}'')]"
    "row_count t = 1"
    unfolding t_def by code_simp+
  have u: "cells_cover u" "rules u = [(0, CHR 0x5C # ''toprule'')]" "lines u = []"
    "row_count u = 1" "label u = None" "seps u = [[], []]"
    unfolding u_def by code_simp+
  have "\<exists>e. fst (render t) = Inl e"
    using render_failure_conditions [of t] t by simp
  moreover have "\<exists>s. fst (render u) = Inr s"
    using render_failure_conditions [of u] u by auto
  ultimately show ?thesis unfolding t_def u_def by blast
qed

text \<open>
  The default table, fresh: no rule, no partial line and no label, and \<open>render\<close>
  raises \<open>IndexError\<close>.
\<close>

theorem render_fresh_table_counterexample:
  "fst (render TexTable_default) = Inl IndexError
   \<and> lines TexTable_default = [] \<and> rules TexTable_default = []
   \<and> label TexTable_default = None"
  by code_simp

text \<open>
  A rule index equal to \<open>row_count\<close> is accepted when a rule is sorted before it: a
  top rule recorded before the only row and a bottom rule recorded after it.
\<close>

lemma render_accepts_rule_at_row_count:
  "rules (run TexTable_default [AddRule None TOP, AddRow [Some ''A''] 0, AddRule None BOTTOM])
     = [(0, CHR 0x5C # ''toprule''), (1, CHR 0x5C # ''bottomrule'')]
   \<and> row_count (run TexTable_default [AddRule None TOP, AddRow [Some ''A''] 0, AddRule None BOTTOM]) = 1
   \<and> fst (render (run TexTable_default [AddRule None TOP, AddRow [Some ''A''] 0, AddRule None BOTTOM]))
     = Inr (join [CHR 0x0A]
       [CHR 0x5C # ''begin{figure}[h!]'',
        ''    '' @ CHR 0x5C # ''centering'',
        ''    '',
        ''    '' @ CHR 0x5C # ''begin{tabular}{c}'',
        ''        '' @ CHR 0x5C # ''toprule'',
        ''        A '' @ [CHR 0x5C, CHR 0x5C],
        ''        '' @ CHR 0x5C # ''bottomrule'',
        ''    '' @ CHR 0x5C # ''end{tabular}'',
        ''    '',
        CHR 0x5C # ''end{figure}''])"
  by code_simp

lemma no_columns_cells_cover:
  assumes "grid_shape t" "col_count t = 0"
  shows "cells_cover t"
proof -
  from assms have "\<forall>rw\<in>set (table t). rw = []"
    by (simp add: grid_shape_def list_all_iff)
  then have "\<forall>x\<in>set (enumerate 0 (table t)). snd x = []"
    by (auto simp: in_set_enumerate_eq)
  then show ?thesis
    by (auto simp: cells_cover_def list_all_iff)
qed

text \<open>
  The exception of a failed line or rule check is a \<open>ValueError\<close>, and \<open>render\<close>
  raises the exception of the first stage that fails.
\<close>

lemma add_top_lines_error:
  "add_top_lines ls rows = Inl e \<Longrightarrow> \<exists>msg. e = ValueError msg"
proof (induction ls arbitrary: rows)
  case Nil
  then show ?case by simp
next
  case (Cons p ls)
  obtain i l where p: "p = (i, l)" by (cases p)
  show ?case
  proof (cases "0 \<le> i \<and> i < int (length rows)")
    case True
    with Cons.prems p
    have "add_top_lines ls (rows[nat i := l @ '' '' @ rows ! nat i]) = Inl e" by simp
    then show ?thesis by (rule Cons.IH)
  next
    case False
    with Cons.prems p show ?thesis by auto
  qed
qed

lemma insert_rules_error:
  "insert_rules added rs rows = Inl e \<Longrightarrow> \<exists>msg. e = ValueError msg"
proof (induction rs arbitrary: added rows)
  case Nil
  then show ?case by simp
next
  case (Cons p rs)
  obtain i tex where p: "p = (i, tex)" by (cases p)
  show ?case
  proof (cases "0 \<le> i \<and> i < int (length rows)")
    case True
    with Cons.prems p
    have "insert_rules (Suc added) rs (py_insert rows (i + int added) tex) = Inl e" by simp
    then show ?thesis by (rule Cons.IH)
  next
    case False
    with Cons.prems p show ?thesis by auto
  qed
qed

lemma render_line_error:
  assumes "render_rows t = Inr rows" "add_top_lines (lines t) rows = Inl e"
  shows "fst (render t) = Inl e"
  using assms by (simp add: render_def)

lemma render_rule_error:
  assumes "render_rows t = Inr rows" "add_top_lines (lines t) rows = Inr rows1"
      and "insert_rules 0 (sort_key fst (rules t)) rows1 = Inl e"
  shows "fst (render t) = Inl e"
  using assms by (simp add: render_def)

lemma render_label_error:
  assumes "render_rows t = Inr rows" "add_top_lines (lines t) rows = Inr rows1"
      and "insert_rules 0 (sort_key fst (rules t)) rows1 = Inr rows2"
      and "label t \<noteq> None \<and> caption t = None"
  shows "fst (render t) = Inl (ValueError ''Cannot have a label without a caption'')"
  using assms by (auto simp: render_def Let_def)

text \<open>
  Claim C10. A table with no column, in the shape the code keeps (no separator, every
  grid row empty), never renders: \<open>render\<close> raises. The exception is the
  \<open>IndexError\<close> of \<open>self.seps[-1]\<close> whenever every partial line and rule index lies
  in \<open>[0, row_count)\<close> and no label is set without a caption. It is a \<open>ValueError\<close>
  when a partial line index lies outside \<open>[0, row_count)\<close>; when the partial line
  indices lie inside and a rule index is negative or at least \<open>row_count\<close> plus the
  number of recorded rules; and when all partial line and rule indices lie in
  \<open>[0, row_count)\<close> and a label is set without a caption (then with the message of
  the label check). Nothing is said of tables with a rule index from \<open>row_count\<close> up
  to \<open>row_count\<close> plus the number of recorded rules.
\<close>

theorem render_no_columns:
  assumes "grid_shape t" "col_count t = 0"
  shows "(\<exists>e. fst (render t) = Inl e)
       \<and> ((\<forall>p\<in>set (lines t). 0 \<le> fst p \<and> fst p < int (row_count t))
          \<and> (\<forall>p\<in>set (rules t). 0 \<le> fst p \<and> fst p < int (row_count t))
          \<and> \<not> (label t \<noteq> None \<and> caption t = None)
          \<longrightarrow> fst (render t) = Inl IndexError)
       \<and> ((\<exists>p\<in>set (lines t). \<not> (0 \<le> fst p \<and> fst p < int (row_count t)))
          \<longrightarrow> (\<exists>msg. fst (render t) = Inl (ValueError msg)))
       \<and> ((\<forall>p\<in>set (lines t). 0 \<le> fst p \<and> fst p < int (row_count t))
          \<and> (\<exists>p\<in>set (rules t). fst p < 0
                 \<or> int (row_count t) + int (length (rules t)) \<le> fst p)
          \<longrightarrow> (\<exists>msg. fst (render t) = Inl (ValueError msg)))
       \<and> ((\<forall>p\<in>set (lines t). 0 \<le> fst p \<and> fst p < int (row_count t))
          \<and> (\<forall>p\<in>set (rules t). 0 \<le> fst p \<and> fst p < int (row_count t))
          \<and> label t \<noteq> None \<and> caption t = None
          \<longrightarrow> fst (render t) = Inl (ValueError ''Cannot have a label without a caption''))"
proof -
  let ?rs = "sort_key fst (rules t)"
  from assms have seps: "seps t = []"
    by (simp add: grid_shape_def col_count_def)
  have fails: "\<exists>e. fst (render t) = Inl e"
    by (rule render_no_separators_fails [OF seps])
  from render_rows_covered [OF no_columns_cells_cover [OF assms]] obtain rows where
    rows: "render_rows t = Inr rows" and len: "length rows = row_count t" by blast
  have line_fails: "\<exists>msg. fst (render t) = Inl (ValueError msg)"
    if "\<exists>p\<in>set (lines t). \<not> (0 \<le> fst p \<and> fst p < int (row_count t))"
  proof -
    from that len have "\<exists>e. add_top_lines (lines t) rows = Inl e"
      by (simp add: add_top_lines_fails_iff)
    then obtain e where e: "add_top_lines (lines t) rows = Inl e" by blast
    from add_top_lines_error [OF e] render_line_error [OF rows e] show ?thesis by auto
  qed
  have lines_pass: "\<exists>rows1. add_top_lines (lines t) rows = Inr rows1 \<and> length rows1 = row_count t"
    if l: "\<forall>p\<in>set (lines t). 0 \<le> fst p \<and> fst p < int (row_count t)"
  proof -
    from l len have "\<not> (\<exists>e. add_top_lines (lines t) rows = Inl e)"
      by (simp add: add_top_lines_fails_iff)
    then obtain rows1 where rows1: "add_top_lines (lines t) rows = Inr rows1"
      by (cases "add_top_lines (lines t) rows") auto
    with add_top_lines_length [OF rows1] len show ?thesis by simp
  qed
  have rule_fails: "\<exists>msg. fst (render t) = Inl (ValueError msg)"
    if l: "\<forall>p\<in>set (lines t). 0 \<le> fst p \<and> fst p < int (row_count t)"
    and r: "\<exists>p\<in>set (rules t). fst p < 0 \<or> int (row_count t) + int (length (rules t)) \<le> fst p"
  proof -
    from lines_pass [OF l] obtain rows1 where
      rows1: "add_top_lines (lines t) rows = Inr rows1" and len1: "length rows1 = row_count t"
      by blast
    from r obtain p where p: "p \<in> set (rules t)"
      "fst p < 0 \<or> int (row_count t) + int (length (rules t)) \<le> fst p" by blast
    from p(1) have "p \<in> set ?rs" by simp
    then obtain k where k: "k < length ?rs" "?rs ! k = p" by (metis in_set_conv_nth)
    from k(1) have "k < length (rules t)" by simp
    with p(2) k(2) len1
    have "\<not> (0 \<le> fst (?rs ! k) \<and> fst (?rs ! k) < int (length rows1) + int k)" by auto
    with k(1) have "\<exists>k<length ?rs. \<not> (0 \<le> fst (?rs ! k)
                      \<and> fst (?rs ! k) < int (length rows1) + int k)" by blast
    then have "\<exists>e. insert_rules 0 ?rs rows1 = Inl e"
      by (simp only: insert_rules_fails_iff)
    then obtain e where e: "insert_rules 0 ?rs rows1 = Inl e" by blast
    from insert_rules_error [OF e] render_rule_error [OF rows rows1 e] show ?thesis by auto
  qed
  have rules_pass: "\<exists>rows1 rows2. add_top_lines (lines t) rows = Inr rows1
                      \<and> insert_rules 0 ?rs rows1 = Inr rows2"
    if l: "\<forall>p\<in>set (lines t). 0 \<le> fst p \<and> fst p < int (row_count t)"
    and r: "\<forall>p\<in>set (rules t). 0 \<le> fst p \<and> fst p < int (row_count t)"
  proof -
    from lines_pass [OF l] obtain rows1 where
      rows1: "add_top_lines (lines t) rows = Inr rows1" and len1: "length rows1 = row_count t"
      by blast
    have "\<not> (\<exists>e. insert_rules 0 ?rs rows1 = Inl e)"
    proof -
      have "0 \<le> fst (?rs ! k) \<and> fst (?rs ! k) < int (length rows1) + int k"
        if "k < length ?rs" for k
      proof -
        from that have "?rs ! k \<in> set ?rs" by (rule nth_mem)
        then have "?rs ! k \<in> set (rules t)" by simp
        with r len1 show ?thesis by fastforce
      qed
      then show ?thesis by (simp add: insert_rules_fails_iff)
    qed
    then obtain rows2 where "insert_rules 0 ?rs rows1 = Inr rows2"
      by (cases "insert_rules 0 ?rs rows1") auto
    with rows1 show ?thesis by blast
  qed
  have index_error: "fst (render t) = Inl IndexError"
    if l: "\<forall>p\<in>set (lines t). 0 \<le> fst p \<and> fst p < int (row_count t)"
    and r: "\<forall>p\<in>set (rules t). 0 \<le> fst p \<and> fst p < int (row_count t)"
    and c: "\<not> (label t \<noteq> None \<and> caption t = None)"
  proof -
    from rules_pass [OF l r] obtain rows1 rows2 where
      "add_top_lines (lines t) rows = Inr rows1" "insert_rules 0 ?rs rows1 = Inr rows2" by blast
    then show ?thesis using c seps by (intro render_index_error [OF rows])
  qed
  have label_error: "fst (render t) = Inl (ValueError ''Cannot have a label without a caption'')"
    if l: "\<forall>p\<in>set (lines t). 0 \<le> fst p \<and> fst p < int (row_count t)"
    and r: "\<forall>p\<in>set (rules t). 0 \<le> fst p \<and> fst p < int (row_count t)"
    and c: "label t \<noteq> None \<and> caption t = None"
  proof -
    from rules_pass [OF l r] obtain rows1 rows2 where
      "add_top_lines (lines t) rows = Inr rows1" "insert_rules 0 ?rs rows1 = Inr rows2" by blast
    then show ?thesis using c by (intro render_label_error [OF rows])
  qed
  from fails index_error line_fails rule_fails label_error show ?thesis by blast
qed

text \<open>
  The table built by two \<open>add_row\<close> calls with no values and the fresh default table
  raise \<open>IndexError\<close>; the default table with a cline recorded for row 3 raises a
  \<open>ValueError\<close>.
\<close>

theorem render_no_columns_witness:
  "fst (render (run TexTable_default [AddRow [] 0, AddRow [] 0])) = Inl IndexError
   \<and> fst (render TexTable_default) = Inl IndexError
   \<and> (\<exists>msg. fst (render (run TexTable_default [AddCline (Some 3) 0 None]))
               = Inl (ValueError msg))"
proof -
  define t where "t = run TexTable_default [AddRow [] 0, AddRow [] 0]"
  define u where "u = run TexTable_default [AddCline (Some 3) 0 None]"
  have t: "grid_shape t" "col_count t = 0" "lines t = []" "rules t = []" "label t = None"
    unfolding t_def by code_simp+
  have d: "grid_shape TexTable_default" "col_count TexTable_default = 0"
    "lines TexTable_default = []" "rules TexTable_default = []" "label TexTable_default = None"
    by code_simp+
  have u: "grid_shape u" "col_count u = 0" "lines u = [(3, CHR 0x5C # ''cline{1-0}'')]"
    "row_count u = 0"
    unfolding u_def by code_simp+
  have "fst (render t) = Inl IndexError"
    using render_no_columns [OF t(1,2)] t(3-) by simp
  moreover have "fst (render TexTable_default) = Inl IndexError"
    using render_no_columns [OF d(1,2)] d(3-) by simp
  moreover have "\<exists>msg. fst (render u) = Inl (ValueError msg)"
    using render_no_columns [OF u(1,2)] u(3-) by simp
  ultimately show ?thesis unfolding t_def u_def by blast
qed

text \<open>
  A fresh table constructed with a label and no caption has no column, and \<open>render\<close>
  raises the \<open>ValueError\<close> of the label check, not an \<open>IndexError\<close>.
\<close>

theorem render_label_without_caption_counterexample:
  "col_count (TexTable_init True None False ''h!'' False [] (Some ''tab'') ''figure'') = 0
   \<and> fst (render (TexTable_init True None False ''h!'' False [] (Some ''tab'') ''figure''))
       = Inl (ValueError ''Cannot have a label without a caption'')"
  by code_simp

section \<open>Slices\<close>

lemma set_py_range: "set (py_range a b) = {a..<b}"
proof -
  have "set (py_range a b) = (\<lambda>k. a + int k) ` {0..<nat (b - a)}"
    by (simp add: py_range_def)
  also have "\<dots> = {a..<b}"
  proof (intro set_eqI iffI)
    fix x assume "x \<in> (\<lambda>k. a + int k) ` {0..<nat (b - a)}"
    then show "x \<in> {a..<b}" by auto
  next
    fix x assume x: "x \<in> {a..<b}"
    then have "x = a + int (nat (x - a))" "nat (x - a) \<in> {0..<nat (b - a)}" by auto
    then show "x \<in> (\<lambda>k. a + int k) ` {0..<nat (b - a)}" by blast
  qed
  finally show ?thesis .
qed

lemma set_slots: "set (slots r c to_row to_col) = {r..to_row} \<times> {c..to_col}"
  by (auto simp: slots_def set_py_range)

lemma py_range_single: "py_range a (a + 1) = [a]"
  by (simp add: py_range_def)

lemma slots_single: "slots r c r c = [(r, c)]"
  by (simp add: slots_def py_range_single)

lemma all_is_Inr:
  "all_is t k ps = Inr b \<Longrightarrow> b = (\<forall>p\<in>set ps. grid_ref t (fst p) (snd p) = Inr k)"
proof (induction ps)
  case Nil
  then show ?case by simp
next
  case (Cons p ps)
  obtain i j where p: "p = (i, j)" by (cases p)
  show ?case
  proof (cases "grid_ref t i j")
    case (Inl e)
    with Cons.prems p show ?thesis by simp
  next
    case (Inr k')
    show ?thesis
    proof (cases "k' = k")
      case True
      with Cons Inr p show ?thesis by simp
    next
      case False
      with Cons.prems Inr p show ?thesis by auto
    qed
  qed
qed

text \<open>
  Claim C9. For a slice that was constructed, reading \<open>value\<close> returns the raw text
  of the cell in its first slot exactly when every slot of the rectangle holds that same
  cell object, and raises \<open>ValueError("Table slice has multiple values")\<close> when some
  slot holds another object.
\<close>

theorem slice_value_single_cell:
  assumes "TexTableSlice_init t r c to_row to_col = Inr s"
  shows "\<exists>k. grid_ref t r c = Inr k
           \<and> slice_value s =
               (if \<forall>p\<in>set (slots r c to_row to_col). grid_ref t (fst p) (snd p) = Inr k
                then Inr (raw_value (cells t ! k))
                else Inl (ValueError ''Table slice has multiple values''))"
proof -
  from assms obtain k where k: "grid_ref t r c = Inr k"
    by (cases "grid_ref t r c") (auto simp: TexTableSlice_init_def split: if_splits sum.splits)
  from assms k obtain same where same: "all_is t k (slots r c to_row to_col) = Inr same"
    by (cases "all_is t k (slots r c to_row to_col)")
       (auto simp: TexTableSlice_init_def split: if_splits sum.splits)
  have same_iff: "same = (\<forall>p\<in>set (slots r c to_row to_col). grid_ref t (fst p) (snd p) = Inr k)"
    by (rule all_is_Inr [OF same])
  have single: "r = to_row \<and> c = to_col \<Longrightarrow> same"
    using same_iff k by (auto simp: slots_single)
  have "cached_value s = (if same then Some (raw_value (cells t ! k)) else None)"
    using assms k same single
    by (auto simp: TexTableSlice_init_def grid_cell_def split: if_splits sum.splits)
  then have "slice_value s = (if same then Inr (raw_value (cells t ! k))
                              else Inl (ValueError ''Table slice has multiple values''))"
    by (simp add: slice_value_def)
  with k same_iff show ?thesis by auto
qed

text \<open>
  The 2x2 table with its first row merged: the slice over the first row reads \<open>X\<close>,
  the slice over the first column spans two objects and raises.
\<close>

theorem slice_value_single_cell_witness:
  "(\<exists>s. TexTableSlice_init (run TexTable_default
            [AddRow [Some ''A'', Some ''B''] 0, AddRow [Some ''C'', Some ''D''] 0,
             Merge ''X'' 0 0 (Some 2) (Some 1) None None]) 0 0 0 1 = Inr s
        \<and> slice_value s = Inr ''X'')
   \<and> (\<exists>s. TexTableSlice_init (run TexTable_default
            [AddRow [Some ''A'', Some ''B''] 0, AddRow [Some ''C'', Some ''D''] 0,
             Merge ''X'' 0 0 (Some 2) (Some 1) None None]) 0 0 1 0 = Inr s
        \<and> slice_value s = Inl (ValueError ''Table slice has multiple values''))"
proof -
  define t where "t = run TexTable_default
            [AddRow [Some ''A'', Some ''B''] 0, AddRow [Some ''C'', Some ''D''] 0,
             Merge ''X'' 0 0 (Some 2) (Some 1) None None]"
  have refs: "grid_ref t 0 0 = Inr 4" "grid_ref t 0 1 = Inr 4" "grid_ref t 1 0 = Inr 2"
    unfolding t_def by code_simp+
  have raw: "raw_value (cells t ! 4) = ''X''"
    unfolding t_def by code_simp
  have sl: "slots 0 0 0 1 = [(0, 0), (0, 1)]" "slots 0 0 1 0 = [(0, 0), (1, 0)]"
    by code_simp+
  obtain s1 where s1: "TexTableSlice_init t 0 0 0 1 = Inr s1"
    by (simp add: TexTableSlice_init_def refs sl grid_cell_def)
  obtain s2 where s2: "TexTableSlice_init t 0 0 1 0 = Inr s2"
    by (simp add: TexTableSlice_init_def refs sl grid_cell_def)
  have "slice_value s1 = Inr ''X''"
    using slice_value_single_cell [OF s1] refs raw sl by simp
  moreover have "slice_value s2 = Inl (ValueError ''Table slice has multiple values'')"
    using slice_value_single_cell [OF s2] refs sl by simp
  ultimately show ?thesis using s1 s2 unfolding t_def by blast
qed

section \<open>\<open>merge\<close>: validation before mutation\<close>

lemma py_pos_nonneg: "0 \<le> i \<Longrightarrow> py_pos n i = (if i < int n then Inr (nat i) else Inl IndexError)"
  by (simp add: py_pos_def)

lemma py_index_nonneg:
  "0 \<le> i \<Longrightarrow> py_index xs i = (if i < int (length xs) then Inr (xs ! nat i) else Inl IndexError)"
  by (simp add: py_index_def py_pos_nonneg)

lemma grid_ref_nonneg:
  assumes "0 \<le> i" "0 \<le> j"
  shows "grid_ref t i j =
           (if i < int (length (table t)) \<and> j < int (length (table t ! nat i))
            then Inr (table t ! nat i ! nat j) else Inl IndexError)"
  using assms by (simp add: grid_ref_def py_index_nonneg)

lemma resolve_axis_size:
  "resolve_axis start sz e = Inr (e', n) \<Longrightarrow> n = e' - start + 1"
  by (auto simp: resolve_axis_def split: option.splits)

lemma assign_cells_frame:
  "assign_cells k ps t = (e, t') \<Longrightarrow>
     length (table t') = length (table t)
     \<and> (\<forall>a<length (table t). length (table t' ! a) = length (table t ! a))
     \<and> cells t' = cells t \<and> seps t' = seps t \<and> col_styles t' = col_styles t"
proof (induction ps arbitrary: t)
  case Nil
  then show ?case by simp
next
  case (Cons p ps)
  obtain i j where p: "p = (i, j)" by (cases p)
  show ?case
  proof (cases "py_pos (length (table t)) i")
    case (Inl x)
    with Cons.prems p show ?thesis by simp
  next
    case a: (Inr a)
    show ?thesis
    proof (cases "py_pos (length (table t ! a)) j")
      case (Inl x)
      with Cons.prems p a show ?thesis by simp
    next
      case b: (Inr b)
      let ?t1 = "t\<lparr>table := (table t)[a := (table t ! a)[b := k]]\<rparr>"
      from Cons.prems p a b have "assign_cells k ps ?t1 = (e, t')" by simp
      from Cons.IH [OF this]
      have ih: "length (table t') = length (table ?t1)"
        "\<forall>a'<length (table ?t1). length (table t' ! a') = length (table ?t1 ! a')"
        "cells t' = cells t" "seps t' = seps t" "col_styles t' = col_styles t"
        by simp_all
      have l1: "length (table ?t1) = length (table t)" by simp
      have l2: "length (table ?t1 ! a') = length (table t ! a')" if "a' < length (table t)" for a'
        using that by (cases "a' = a") simp_all
      from ih l1 l2 show ?thesis by simp
    qed
  qed
qed

lemma assign_cells_valid:
  assumes "\<forall>p\<in>set ps. 0 \<le> fst p \<and> 0 \<le> snd p \<and> fst p < int (length (table t))
                      \<and> snd p < int (length (table t ! nat (fst p)))"
  shows "fst (assign_cells k ps t) = None
       \<and> (\<forall>a<length (table t). \<forall>b<length (table t ! a).
             table (snd (assign_cells k ps t)) ! a ! b
               = (if (int a, int b) \<in> set ps then k else table t ! a ! b))"
  using assms
proof (induction ps arbitrary: t)
  case Nil
  then show ?case by simp
next
  case (Cons p ps)
  obtain i j where p: "p = (i, j)" by (cases p)
  from Cons.prems p have ij: "0 \<le> i" "0 \<le> j" "i < int (length (table t))"
    "j < int (length (table t ! nat i))" by auto
  let ?t1 = "t\<lparr>table := (table t)[nat i := (table t ! nat i)[nat j := k]]\<rparr>"
  have step: "assign_cells k (p # ps) t = assign_cells k ps ?t1"
    using p ij by (simp add: py_pos_nonneg)
  have len1: "length (table ?t1) = length (table t)" by simp
  have len2: "length (table ?t1 ! a) = length (table t ! a)" if "a < length (table t)" for a
    using that by (cases "a = nat i") simp_all
  have "\<forall>p\<in>set ps. 0 \<le> fst p \<and> 0 \<le> snd p \<and> fst p < int (length (table ?t1))
                      \<and> snd p < int (length (table ?t1 ! nat (fst p)))"
  proof
    fix q assume q: "q \<in> set ps"
    with Cons.prems have q': "0 \<le> fst q" "0 \<le> snd q" "fst q < int (length (table t))"
      "snd q < int (length (table t ! nat (fst q)))" by auto
    from q'(1,3) have "nat (fst q) < length (table t)" by simp
    from len2 [OF this] q' len1
    show "0 \<le> fst q \<and> 0 \<le> snd q \<and> fst q < int (length (table ?t1))
                      \<and> snd q < int (length (table ?t1 ! nat (fst q)))" by simp
  qed
  from Cons.IH [OF this]
  have ok: "fst (assign_cells k ps ?t1) = None"
    and vals: "\<forall>a<length (table ?t1). \<forall>b<length (table ?t1 ! a).
             table (snd (assign_cells k ps ?t1)) ! a ! b
               = (if (int a, int b) \<in> set ps then k else table ?t1 ! a ! b)"
    by simp_all
  have "table (snd (assign_cells k (p # ps) t)) ! a ! b
               = (if (int a, int b) \<in> set (p # ps) then k else table t ! a ! b)"
    if a: "a < length (table t)" and b: "b < length (table t ! a)" for a b
  proof -
    from a b len1 len2 [OF a] vals
    have "table (snd (assign_cells k ps ?t1)) ! a ! b
               = (if (int a, int b) \<in> set ps then k else table ?t1 ! a ! b)" by simp
    moreover have "table ?t1 ! a ! b = (if a = nat i \<and> b = nat j then k else table t ! a ! b)"
      using a b by (cases "a = nat i") (auto simp: nth_list_update)
    moreover have "(a = nat i \<and> b = nat j) = ((int a, int b) = p)"
      using p ij by auto
    ultimately show ?thesis using step by auto
  qed
  with ok step show ?case by simp
qed

lemma check_cells_None:
  assumes "check_cells t c to_row to_col ps = None" and "p \<in> set ps"
  shows "\<exists>k. grid_ref t (fst p) (snd p) = Inr k
           \<and> \<not> (row (cells t ! k) < fst p \<or> col (cells t ! k) < c
                \<or> row (cells t ! k) + height (cells t ! k) - 1 > to_row
                \<or> col (cells t ! k) + width (cells t ! k) - 1 > to_col)"
  using assms
proof (induction ps)
  case Nil
  then show ?case by simp
next
  case (Cons q ps)
  obtain i j where q: "q = (i, j)" by (cases q)
  from Cons.prems(1) q obtain k where k: "grid_ref t i j = Inr k"
    by (cases "grid_ref t i j") (auto simp: grid_cell_def)
  from Cons.prems(1) q k
  have here: "\<not> (row (cells t ! k) < i \<or> col (cells t ! k) < c
                \<or> row (cells t ! k) + height (cells t ! k) - 1 > to_row
                \<or> col (cells t ! k) + width (cells t ! k) - 1 > to_col)"
    and rest: "check_cells t c to_row to_col ps = None"
    by (auto simp: grid_cell_def bounds_def split: if_splits)
  show ?case
  proof (cases "p = q")
    case True
    with q k here show ?thesis by auto
  next
    case False
    with Cons.prems(2) have "p \<in> set ps" by simp
    from Cons.IH [OF rest this] show ?thesis .
  qed
qed

lemma check_cells_error:
  assumes "check_cells t c to_row to_col ps = Some e"
      and "\<forall>p\<in>set ps. \<exists>k. grid_ref t (fst p) (snd p) = Inr k"
  shows "e = ValueError overlap_message"
  using assms
proof (induction ps)
  case Nil
  then show ?case by simp
next
  case (Cons q ps)
  obtain i j where q: "q = (i, j)" by (cases q)
  from Cons.prems(2) q obtain k where k: "grid_ref t i j = Inr k" by auto
  show ?case
  proof (cases "row (cells t ! k) < i \<or> col (cells t ! k) < c
                \<or> row (cells t ! k) + height (cells t ! k) - 1 > to_row
                \<or> col (cells t ! k) + width (cells t ! k) - 1 > to_col")
    case True
    with Cons.prems(1) q k show ?thesis
      by (auto simp: grid_cell_def bounds_def)
  next
    case False
    with Cons.prems(1) q k have "check_cells t c to_row to_col ps = Some e"
      by (auto simp: grid_cell_def bounds_def)
    moreover from Cons.prems(2) have "\<forall>p\<in>set ps. \<exists>k. grid_ref t (fst p) (snd p) = Inr k"
      by simp
    ultimately show ?thesis by (rule Cons.IH)
  qed
qed

lemma check_cells_passes:
  assumes "\<forall>p\<in>set ps. \<exists>k. grid_ref t (fst p) (snd p) = Inr k
           \<and> \<not> (row (cells t ! k) < fst p \<or> col (cells t ! k) < c
                \<or> row (cells t ! k) + height (cells t ! k) - 1 > to_row
                \<or> col (cells t ! k) + width (cells t ! k) - 1 > to_col)"
  shows "check_cells t c to_row to_col ps = None"
  using assms
proof (induction ps)
  case Nil
  then show ?case by simp
next
  case (Cons q ps)
  obtain i j where q: "q = (i, j)" by (cases q)
  from Cons.prems q obtain k where "grid_ref t i j = Inr k"
    "\<not> (row (cells t ! k) < i \<or> col (cells t ! k) < c
                \<or> row (cells t ! k) + height (cells t ! k) - 1 > to_row
                \<or> col (cells t ! k) + width (cells t ! k) - 1 > to_col)" by auto
  moreover from Cons have "check_cells t c to_row to_col ps = None" by simp
  ultimately show ?case using q by (simp add: grid_cell_def bounds_def)
qed

lemma merge_validated:
  assumes "0 \<le> r" "r < int (length (table t))" "0 \<le> c" "c < int (col_count t)"
      and "resolve_axis r h tr = Inr (to_row, hh)" "resolve_axis c w tc = Inr (to_col, ww)"
      and "r \<le> to_row" "to_row < int (length (table t))"
      and "c \<le> to_col" "to_col < int (col_count t)"
      and "check_cells t c to_row to_col (slots r c to_row to_col) = None"
  shows "merge v r c w h tr tc t =
     (let t1 = (if hh > 1 then depends_on ''multirow'' t else t)
      in (case py_index (seps t1) c of
            Inl e \<Rightarrow> (Some e, t1)
          | Inr ls \<Rightarrow>
             (case py_index (seps t1) (to_col + 1) of
                Inl e \<Rightarrow> (Some e, t1)
              | Inr rs \<Rightarrow>
                  assign_cells (length (cells t1)) (slots r c to_row to_col)
                    (t1\<lparr>cells := cells t1 @ [new_cell v r c ww hh ls rs]\<rparr>))))"
  using assms by (simp add: merge_def)

lemma merge_not_validated:
  assumes "\<not> (0 \<le> r \<and> r < int (length (table t)) \<and> 0 \<le> c \<and> c < int (col_count t)
            \<and> (\<exists>to_row hh to_col ww.
                 resolve_axis r h tr = Inr (to_row, hh) \<and> resolve_axis c w tc = Inr (to_col, ww)
                 \<and> r \<le> to_row \<and> to_row < int (length (table t))
                 \<and> c \<le> to_col \<and> to_col < int (col_count t)
                 \<and> check_cells t c to_row to_col (slots r c to_row to_col) = None))"
  shows "\<exists>e. merge v r c w h tr tc t = (Some e, t)"
proof (cases "0 \<le> r \<and> r < int (length (table t)) \<and> 0 \<le> c \<and> c < int (col_count t)")
  case False
  then show ?thesis by (auto simp: merge_def)
next
  case idx: True
  show ?thesis
  proof (cases "resolve_axis r h tr")
    case (Inl e)
    with idx show ?thesis by (simp add: merge_def)
  next
    case (Inr a)
    then obtain to_row hh where ra: "resolve_axis r h tr = Inr (to_row, hh)" by (cases a) auto
    show ?thesis
    proof (cases "resolve_axis c w tc")
      case (Inl e)
      with idx ra show ?thesis by (simp add: merge_def)
    next
      case (Inr b)
      then obtain to_col ww where rb: "resolve_axis c w tc = Inr (to_col, ww)" by (cases b) auto
      show ?thesis
      proof (cases "r \<le> to_row \<and> to_row < int (length (table t))
                    \<and> c \<le> to_col \<and> to_col < int (col_count t)")
        case False
        with idx ra rb show ?thesis by (auto simp: merge_def)
      next
        case True
        with assms idx ra rb
        obtain e where "check_cells t c to_row to_col (slots r c to_row to_col) = Some e"
          by (cases "check_cells t c to_row to_col (slots r c to_row to_col)") auto
        with idx ra rb True show ?thesis by (simp add: merge_def)
      qed
    qed
  qed
qed

lemma slots_valid_after_check:
  assumes chk: "check_cells t c to_row to_col (slots r c to_row to_col) = None"
      and "0 \<le> r" "0 \<le> c"
      and p: "p \<in> set (slots r c to_row to_col)"
  shows "0 \<le> fst p \<and> 0 \<le> snd p \<and> fst p < int (length (table t))
           \<and> snd p < int (length (table t ! nat (fst p)))"
proof -
  from p assms(2,3) have nn: "0 \<le> fst p" "0 \<le> snd p"
    by (auto simp: set_slots)
  from check_cells_None [OF chk p] obtain k where "grid_ref t (fst p) (snd p) = Inr k" by blast
  with nn show ?thesis by (simp add: grid_ref_nonneg split: if_splits)
qed

text \<open>
  The part of claim C3 that holds: a call of \<open>merge\<close> that raises leaves the grid,
  the cell objects, the separators and the column styles as they were (the dependency
  on multirow may already have been recorded).
\<close>

lemma merge_failure_unchanged:
  assumes "fst (merge v r c w h tr tc t) = Some e"
  shows "table (snd (merge v r c w h tr tc t)) = table t
       \<and> cells (snd (merge v r c w h tr tc t)) = cells t
       \<and> seps (snd (merge v r c w h tr tc t)) = seps t
       \<and> col_styles (snd (merge v r c w h tr tc t)) = col_styles t"
proof (cases "0 \<le> r \<and> r < int (length (table t)) \<and> 0 \<le> c \<and> c < int (col_count t)
            \<and> (\<exists>to_row hh to_col ww.
                 resolve_axis r h tr = Inr (to_row, hh) \<and> resolve_axis c w tc = Inr (to_col, ww)
                 \<and> r \<le> to_row \<and> to_row < int (length (table t))
                 \<and> c \<le> to_col \<and> to_col < int (col_count t)
                 \<and> check_cells t c to_row to_col (slots r c to_row to_col) = None)")
  case False
  from merge_not_validated [OF this] obtain e' where "merge v r c w h tr tc t = (Some e', t)"
    by blast
  then show ?thesis by simp
next
  case True
  then obtain to_row hh to_col ww where
    v: "0 \<le> r" "r < int (length (table t))" "0 \<le> c" "c < int (col_count t)"
       "resolve_axis r h tr = Inr (to_row, hh)" "resolve_axis c w tc = Inr (to_col, ww)"
       "r \<le> to_row" "to_row < int (length (table t))"
       "c \<le> to_col" "to_col < int (col_count t)"
       "check_cells t c to_row to_col (slots r c to_row to_col) = None"
    by blast
  let ?t1 = "if hh > 1 then depends_on ''multirow'' t else t"
  have t1: "table ?t1 = table t" "cells ?t1 = cells t" "seps ?t1 = seps t"
    "col_styles ?t1 = col_styles t"
    by (simp_all add: depends_on_def)
  note m = merge_validated [OF v, of v]
  show ?thesis
  proof (cases "py_index (seps ?t1) c")
    case (Inl x)
    with m t1 show ?thesis by (simp add: Let_def)
  next
    case ls: (Inr ls)
    show ?thesis
    proof (cases "py_index (seps ?t1) (to_col + 1)")
      case (Inl x)
      with m ls t1 show ?thesis by (simp add: Let_def)
    next
      case rs: (Inr rs)
      let ?t2 = "?t1\<lparr>cells := cells ?t1 @ [new_cell v r c ww hh ls rs]\<rparr>"
      have "\<forall>p\<in>set (slots r c to_row to_col).
              0 \<le> fst p \<and> 0 \<le> snd p \<and> fst p < int (length (table ?t2))
              \<and> snd p < int (length (table ?t2 ! nat (fst p)))"
        using slots_valid_after_check [OF v(11) v(1) v(3)] t1 by simp
      from assign_cells_valid [OF this]
      have "fst (assign_cells (length (cells ?t1)) (slots r c to_row to_col) ?t2) = None"
        by blast
      moreover have "merge v r c w h tr tc t
                       = assign_cells (length (cells ?t1)) (slots r c to_row to_col) ?t2"
        using m ls rs by (simp add: Let_def)
      ultimately show ?thesis using assms by simp
    qed
  qed
qed

text \<open>
  With neither a size nor an end for one axis, the \<open>assert\<close> of that axis fails.
\<close>

lemma merge_axis_missing:
  assumes "0 \<le> r" "r < int (length (table t))" "0 \<le> c" "c < int (col_count t)"
      and "(h = None \<and> tr = None) \<or> (w = None \<and> tc = None)"
  shows "merge v r c w h tr tc t = (Some (AssertionError []), t)"
  using assms by (auto simp: merge_def resolve_axis_def split: option.splits)

lemma merge_success:
  assumes ok: "fst (merge v r c w h tr tc t) = None"
  shows "\<exists>to_row hh to_col ww ls rs.
           resolve_axis r h tr = Inr (to_row, hh) \<and> resolve_axis c w tc = Inr (to_col, ww)
         \<and> 0 \<le> r \<and> r \<le> to_row \<and> to_row < int (length (table t))
         \<and> 0 \<le> c \<and> c \<le> to_col \<and> to_col < int (col_count t)
         \<and> check_cells t c to_row to_col (slots r c to_row to_col) = None
         \<and> py_index (seps t) c = Inr ls \<and> py_index (seps t) (to_col + 1) = Inr rs
         \<and> seps (snd (merge v r c w h tr tc t)) = seps t
         \<and> col_styles (snd (merge v r c w h tr tc t)) = col_styles t
         \<and> cells (snd (merge v r c w h tr tc t)) = cells t @ [new_cell v r c ww hh ls rs]
         \<and> length (table (snd (merge v r c w h tr tc t))) = length (table t)
         \<and> (\<forall>a<length (table t).
               length (table (snd (merge v r c w h tr tc t)) ! a) = length (table t ! a))
         \<and> (\<forall>p\<in>set (slots r c to_row to_col).
               nat (snd p) < length (table t ! nat (fst p))
             \<and> table (snd (merge v r c w h tr tc t)) ! nat (fst p) ! nat (snd p)
                 = length (cells t))"
proof -
  have "0 \<le> r \<and> r < int (length (table t)) \<and> 0 \<le> c \<and> c < int (col_count t)
            \<and> (\<exists>to_row hh to_col ww.
                 resolve_axis r h tr = Inr (to_row, hh) \<and> resolve_axis c w tc = Inr (to_col, ww)
                 \<and> r \<le> to_row \<and> to_row < int (length (table t))
                 \<and> c \<le> to_col \<and> to_col < int (col_count t)
                 \<and> check_cells t c to_row to_col (slots r c to_row to_col) = None)"
  proof (rule ccontr)
    assume "\<not> ?thesis"
    from merge_not_validated [OF this, of v] ok show False by auto
  qed
  then obtain to_row hh to_col ww where
    v: "0 \<le> r" "r < int (length (table t))" "0 \<le> c" "c < int (col_count t)"
       "resolve_axis r h tr = Inr (to_row, hh)" "resolve_axis c w tc = Inr (to_col, ww)"
       "r \<le> to_row" "to_row < int (length (table t))"
       "c \<le> to_col" "to_col < int (col_count t)"
       "check_cells t c to_row to_col (slots r c to_row to_col) = None"
    by blast
  let ?t1 = "if hh > 1 then depends_on ''multirow'' t else t"
  have t1: "table ?t1 = table t" "cells ?t1 = cells t" "seps ?t1 = seps t"
    "col_styles ?t1 = col_styles t"
    by (simp_all add: depends_on_def)
  note m = merge_validated [OF v, of v]
  from m ok obtain ls where ls: "py_index (seps ?t1) c = Inr ls"
    by (cases "py_index (seps ?t1) c") (simp_all add: Let_def)
  from m ok ls obtain rs where rs: "py_index (seps ?t1) (to_col + 1) = Inr rs"
    by (cases "py_index (seps ?t1) (to_col + 1)") (simp_all add: Let_def)
  let ?t2 = "?t1\<lparr>cells := cells ?t1 @ [new_cell v r c ww hh ls rs]\<rparr>"
  let ?res = "assign_cells (length (cells ?t1)) (slots r c to_row to_col) ?t2"
  have res: "merge v r c w h tr tc t = ?res"
    using m ls rs by (simp add: Let_def)
  have valid: "\<forall>p\<in>set (slots r c to_row to_col).
              0 \<le> fst p \<and> 0 \<le> snd p \<and> fst p < int (length (table ?t2))
              \<and> snd p < int (length (table ?t2 ! nat (fst p)))"
    using slots_valid_after_check [OF v(11) v(1) v(3)] t1 by simp
  from assign_cells_valid [OF valid, of "length (cells ?t1)"]
  have vals: "\<forall>a<length (table ?t2). \<forall>b<length (table ?t2 ! a).
             table (snd ?res) ! a ! b
               = (if (int a, int b) \<in> set (slots r c to_row to_col)
                  then length (cells ?t1) else table ?t2 ! a ! b)"
    by blast
  obtain e' t' where r': "?res = (e', t')" by (cases ?res)
  from assign_cells_frame [OF r'] r' t1
  have f1: "seps (snd ?res) = seps t" "col_styles (snd ?res) = col_styles t"
    "cells (snd ?res) = cells t @ [new_cell v r c ww hh ls rs]"
    "length (table (snd ?res)) = length (table t)"
    "\<forall>a<length (table t). length (table (snd ?res) ! a) = length (table t ! a)"
    by simp_all
  have f2: "nat (snd p) < length (table t ! nat (fst p))
             \<and> table (snd ?res) ! nat (fst p) ! nat (snd p) = length (cells t)"
    if p: "p \<in> set (slots r c to_row to_col)" for p
  proof -
    from valid p t1 have q: "0 \<le> fst p" "0 \<le> snd p" "nat (fst p) < length (table t)"
      "nat (snd p) < length (table t ! nat (fst p))" by auto
    with vals t1 have "table (snd ?res) ! nat (fst p) ! nat (snd p)
               = (if (int (nat (fst p)), int (nat (snd p))) \<in> set (slots r c to_row to_col)
                  then length (cells t) else table t ! nat (fst p) ! nat (snd p))" by simp
    with p q show ?thesis by simp
  qed
  have s1: "py_index (seps t) c = Inr ls" "py_index (seps t) (to_col + 1) = Inr rs"
    using ls rs t1 by simp_all
  show ?thesis
    unfolding res
    apply (rule exI [of _ to_row], rule exI [of _ hh], rule exI [of _ to_col],
           rule exI [of _ ww], rule exI [of _ ls], rule exI [of _ rs])
    using v s1 f1 f2 by blast
qed

section \<open>A second \<open>merge\<close>\<close>

lemma merge_check_fails:
  assumes "0 \<le> r" "r < int (length (table t))" "0 \<le> c" "c < int (col_count t)"
      and "resolve_axis r h tr = Inr (to_row, hh)" "resolve_axis c w tc = Inr (to_col, ww)"
      and "r \<le> to_row" "to_row < int (length (table t))"
      and "c \<le> to_col" "to_col < int (col_count t)"
      and "check_cells t c to_row to_col (slots r c to_row to_col) = Some e"
  shows "merge v r c w h tr tc t = (Some e, t)"
  using assms by (simp add: merge_def)

lemma merge_overlap_fails:
  assumes shape: "list_all (\<lambda>rw. length rw = col_count t) (table t)"
      and first: "fst (merge v r c w h tr tc t) = None"
      and r1: "resolve_axis r h tr = Inr (to_row, hh)" "resolve_axis c w tc = Inr (to_col, ww)"
      and r2: "resolve_axis r2 h2 tr2 = Inr (to_row2, hh2)"
              "resolve_axis c2 w2 tc2 = Inr (to_col2, ww2)"
      and grid: "0 \<le> r2" "r2 \<le> to_row2" "to_row2 < int (row_count t)"
                "0 \<le> c2" "c2 \<le> to_col2" "to_col2 < int (col_count t)"
      and overlap: "max r r2 \<le> min to_row to_row2" "max c c2 \<le> min to_col to_col2"
      and not_inside: "\<not> (r2 \<le> r \<and> c2 \<le> c \<and> to_row \<le> to_row2 \<and> to_col \<le> to_col2)"
  shows "merge v2 r2 c2 w2 h2 tr2 tc2 (snd (merge v r c w h tr tc t))
           = (Some (ValueError overlap_message), snd (merge v r c w h tr tc t))"
proof -
  let ?t' = "snd (merge v r c w h tr tc t)"
  from merge_success [OF first] r1 obtain ls rs where
    m: "0 \<le> r" "r \<le> to_row" "to_row < int (length (table t))"
       "0 \<le> c" "c \<le> to_col" "to_col < int (col_count t)"
       "seps ?t' = seps t" "col_styles ?t' = col_styles t"
       "cells ?t' = cells t @ [new_cell v r c ww hh ls rs]"
       "length (table ?t') = length (table t)"
       "\<forall>a<length (table t). length (table ?t' ! a) = length (table t ! a)"
       "\<forall>p\<in>set (slots r c to_row to_col).
               nat (snd p) < length (table t ! nat (fst p))
             \<and> table ?t' ! nat (fst p) ! nat (snd p) = length (cells t)"
    by auto
  have size: "hh = to_row - r + 1" "ww = to_col - c + 1"
    using r1 by (auto dest: resolve_axis_size)
  have cc: "col_count ?t' = col_count t"
    using m(8) by (simp add: col_count_def)
  note len = m(10)
  have rowlen: "length (table ?t' ! a) = col_count t" if "a < length (table t)" for a
  proof -
    from shape that have "length (table t ! a) = col_count t"
      by (simp add: list_all_length)
    with m(11) that show ?thesis by simp
  qed
  have valid: "\<exists>k. grid_ref ?t' (fst p) (snd p) = Inr k"
    if "p \<in> set (slots r2 c2 to_row2 to_col2)" for p
  proof -
    from that grid have q: "0 \<le> fst p" "fst p < int (length (table t))"
      "0 \<le> snd p" "snd p < int (col_count t)"
      by (auto simp: set_slots row_count_def)
    then have "nat (fst p) < length (table t)" by simp
    from rowlen [OF this] q len show ?thesis by (simp add: grid_ref_nonneg)
  qed
  let ?p = "(max r r2, max c c2)"
  have p1: "?p \<in> set (slots r c to_row to_col)" and p2: "?p \<in> set (slots r2 c2 to_row2 to_col2)"
    using overlap by (auto simp: set_slots)
  have ref: "grid_ref ?t' (fst ?p) (snd ?p) = Inr (length (cells t))"
  proof -
    from valid [OF p2] obtain k where k: "grid_ref ?t' (fst ?p) (snd ?p) = Inr k" by blast
    from m(1,4) have nn: "0 \<le> fst ?p" "0 \<le> snd ?p" by simp_all
    from k nn have "k = table ?t' ! nat (fst ?p) ! nat (snd ?p)"
      by (simp add: grid_ref_nonneg split: if_splits)
    moreover from m(12) p1
    have "table ?t' ! nat (fst ?p) ! nat (snd ?p) = length (cells t)" by blast
    ultimately show ?thesis using k by simp
  qed
  have newc: "cells ?t' ! length (cells t) = new_cell v r c ww hh ls rs"
    using m(9) by simp
  have "check_cells ?t' c2 to_row2 to_col2 (slots r2 c2 to_row2 to_col2) \<noteq> None"
  proof
    assume "check_cells ?t' c2 to_row2 to_col2 (slots r2 c2 to_row2 to_col2) = None"
    from check_cells_None [OF this p2] ref newc
    have "\<not> (r < max r r2 \<or> c < c2 \<or> r + hh - 1 > to_row2 \<or> c + ww - 1 > to_col2)"
      by (simp add: new_cell_def)
    with size not_inside show False by auto
  qed
  then obtain e where e: "check_cells ?t' c2 to_row2 to_col2 (slots r2 c2 to_row2 to_col2) = Some e"
    by auto
  from check_cells_error [OF e] valid have e': "e = ValueError overlap_message" by blast
  have v: "0 \<le> r2" "r2 < int (length (table ?t'))" "0 \<le> c2" "c2 < int (col_count ?t')"
       "resolve_axis r2 h2 tr2 = Inr (to_row2, hh2)" "resolve_axis c2 w2 tc2 = Inr (to_col2, ww2)"
       "r2 \<le> to_row2" "to_row2 < int (length (table ?t'))"
       "c2 \<le> to_col2" "to_col2 < int (col_count ?t')"
    using r2 grid len cc by (simp_all add: row_count_def)
  from merge_check_fails [OF v e, of v2] e' show ?thesis by simp
qed

lemma merge_same_row_again:
  assumes first: "fst (merge v r c w h tr tc t) = None"
      and r1: "resolve_axis r h tr = Inr (r, hh)" "resolve_axis c w tc = Inr (to_col, ww)"
      and r2: "resolve_axis r h2 tr2 = Inr (r, hh2)" "resolve_axis c w2 tc2 = Inr (to_col, ww2)"
  shows "fst (merge v2 r c w2 h2 tr2 tc2 (snd (merge v r c w h tr tc t))) = None"
proof -
  let ?t' = "snd (merge v r c w h tr tc t)"
  from merge_success [OF first] r1 obtain ls rs where
    m: "0 \<le> r" "r < int (length (table t))"
       "0 \<le> c" "c \<le> to_col" "to_col < int (col_count t)"
       "py_index (seps t) c = Inr ls" "py_index (seps t) (to_col + 1) = Inr rs"
       "seps ?t' = seps t" "col_styles ?t' = col_styles t"
       "cells ?t' = cells t @ [new_cell v r c ww hh ls rs]"
       "length (table ?t') = length (table t)"
       "\<forall>a<length (table t). length (table ?t' ! a) = length (table t ! a)"
       "\<forall>p\<in>set (slots r c r to_col).
               nat (snd p) < length (table t ! nat (fst p))
             \<and> table ?t' ! nat (fst p) ! nat (snd p) = length (cells t)"
    by auto
  have size: "hh = 1" "ww = to_col - c + 1" "hh2 = 1"
    using r1 r2 by (auto dest: resolve_axis_size)
  have cc: "col_count ?t' = col_count t"
    using m(9) by (simp add: col_count_def)
  note len = m(11)
  have newc: "cells ?t' ! length (cells t) = new_cell v r c ww hh ls rs"
    using m(10) by simp
  have slot: "grid_ref ?t' (fst p) (snd p) = Inr (length (cells t))
              \<and> 0 \<le> fst p \<and> 0 \<le> snd p \<and> fst p < int (length (table ?t'))
              \<and> snd p < int (length (table ?t' ! nat (fst p)))"
    if p: "p \<in> set (slots r c r to_col)" for p
  proof -
    from p m(1,3) have q: "fst p = r" "0 \<le> snd p" by (auto simp: set_slots)
    from m(2) m(1) have a: "nat r < length (table t)" by simp
    from m(13) p q have b: "nat (snd p) < length (table t ! nat r)"
      "table ?t' ! nat r ! nat (snd p) = length (cells t)" by auto
    from m(12) a b(1)
    have "snd p < int (length (table ?t' ! nat r))" using q by simp
    with q m(1,2) len b(2) show ?thesis by (simp add: grid_ref_nonneg)
  qed
  have chk: "check_cells ?t' c r to_col (slots r c r to_col) = None"
  proof (rule check_cells_passes, rule ballI)
    fix p assume p: "p \<in> set (slots r c r to_col)"
    then have "fst p = r" by (auto simp: set_slots)
    with slot [OF p] newc size
    show "\<exists>k. grid_ref ?t' (fst p) (snd p) = Inr k
           \<and> \<not> (row (cells ?t' ! k) < fst p \<or> col (cells ?t' ! k) < c
                \<or> row (cells ?t' ! k) + height (cells ?t' ! k) - 1 > r
                \<or> col (cells ?t' ! k) + width (cells ?t' ! k) - 1 > to_col)"
      by (simp add: new_cell_def)
  qed
  have v: "0 \<le> r" "r < int (length (table ?t'))" "0 \<le> c" "c < int (col_count ?t')"
       "resolve_axis r h2 tr2 = Inr (r, hh2)" "resolve_axis c w2 tc2 = Inr (to_col, ww2)"
       "r \<le> r" "r < int (length (table ?t'))"
       "c \<le> to_col" "to_col < int (col_count ?t')"
    using m r2 len cc by simp_all
  note mv = merge_validated [OF v chk, of v2]
  let ?t2 = "?t'\<lparr>cells := cells ?t' @ [new_cell v2 r c ww2 hh2 ls rs]\<rparr>"
  have "\<forall>p\<in>set (slots r c r to_col).
              0 \<le> fst p \<and> 0 \<le> snd p \<and> fst p < int (length (table ?t2))
              \<and> snd p < int (length (table ?t2 ! nat (fst p)))"
    using slot by simp
  from assign_cells_valid [OF this]
  have "fst (assign_cells (length (cells ?t')) (slots r c r to_col) ?t2) = None" by blast
  with mv m(6,7,8) size show ?thesis by (simp add: Let_def)
qed

text \<open>
  Claim C2. On a table whose rows all have \<open>col_count\<close> slots, after a merge of the
  rectangle from \<open>(r, c)\<close> to \<open>(to_row, to_col)\<close> has succeeded, a second merge of a
  rectangle inside the grid that shares a slot with the first and does not contain all
  of it (in particular one that lies strictly inside it) raises the \<open>ValueError\<close> of
  the overlap check and changes nothing; a second merge of the same rectangle succeeds
  when the rectangle is one row high.
\<close>

theorem merge_after_merge:
  assumes "list_all (\<lambda>rw. length rw = col_count t) (table t)"
      and "fst (merge v r c w h tr tc t) = None"
      and "resolve_axis r h tr = Inr (to_row, hh)" "resolve_axis c w tc = Inr (to_col, ww)"
      and "resolve_axis r2 h2 tr2 = Inr (to_row2, hh2)"
          "resolve_axis c2 w2 tc2 = Inr (to_col2, ww2)"
      and "0 \<le> r2" "r2 \<le> to_row2" "to_row2 < int (row_count t)"
          "0 \<le> c2" "c2 \<le> to_col2" "to_col2 < int (col_count t)"
  shows "(max r r2 \<le> min to_row to_row2 \<and> max c c2 \<le> min to_col to_col2
          \<and> \<not> (r2 \<le> r \<and> c2 \<le> c \<and> to_row \<le> to_row2 \<and> to_col \<le> to_col2)
          \<longrightarrow> merge v2 r2 c2 w2 h2 tr2 tc2 (snd (merge v r c w h tr tc t))
                = (Some (ValueError overlap_message), snd (merge v r c w h tr tc t)))
       \<and> (r2 = r \<and> c2 = c \<and> to_row2 = to_row \<and> to_col2 = to_col \<and> to_row = r
          \<longrightarrow> fst (merge v2 r2 c2 w2 h2 tr2 tc2 (snd (merge v r c w h tr tc t))) = None)"
proof (intro conjI impI)
  assume "max r r2 \<le> min to_row to_row2 \<and> max c c2 \<le> min to_col to_col2
          \<and> \<not> (r2 \<le> r \<and> c2 \<le> c \<and> to_row \<le> to_row2 \<and> to_col \<le> to_col2)"
  then have o: "max r r2 \<le> min to_row to_row2" "max c c2 \<le> min to_col to_col2"
    "\<not> (r2 \<le> r \<and> c2 \<le> c \<and> to_row \<le> to_row2 \<and> to_col \<le> to_col2)"
    by blast+
  show "merge v2 r2 c2 w2 h2 tr2 tc2 (snd (merge v r c w h tr tc t))
          = (Some (ValueError overlap_message), snd (merge v r c w h tr tc t))"
    by (rule merge_overlap_fails [OF assms o])
next
  assume "r2 = r \<and> c2 = c \<and> to_row2 = to_row \<and> to_col2 = to_col \<and> to_row = r"
  with assms(3-6) have
    "resolve_axis r h tr = Inr (r, hh)" "resolve_axis c w tc = Inr (to_col, ww)"
    "resolve_axis r h2 tr2 = Inr (r, hh2)" "resolve_axis c w2 tc2 = Inr (to_col, ww2)"
    and eq: "r2 = r" "c2 = c"
    by simp_all
  from merge_same_row_again [OF assms(2) this(1-4)] eq
  show "fst (merge v2 r2 c2 w2 h2 tr2 tc2 (snd (merge v r c w h tr tc t))) = None"
    by simp
qed

text \<open>
  Two rows of three columns with the first two slots of row 0 merged: merging columns 1
  to 2 of row 0 raises, merging columns 0 to 1 of row 0 again succeeds.
\<close>

theorem merge_after_merge_witness:
  "merge ''Y'' 0 1 (Some 2) (Some 1) None None
     (snd (merge ''X'' 0 0 (Some 2) (Some 1) None None
        (run TexTable_default [AddRow [Some ''A'', Some ''B'', Some ''C''] 0,
                               AddRow [Some ''D'', Some ''E'', Some ''F''] 0])))
   = (Some (ValueError overlap_message),
      snd (merge ''X'' 0 0 (Some 2) (Some 1) None None
        (run TexTable_default [AddRow [Some ''A'', Some ''B'', Some ''C''] 0,
                               AddRow [Some ''D'', Some ''E'', Some ''F''] 0])))
   \<and> fst (merge ''Z'' 0 0 None None (Some 0) (Some 1)
     (snd (merge ''X'' 0 0 (Some 2) (Some 1) None None
        (run TexTable_default [AddRow [Some ''A'', Some ''B'', Some ''C''] 0,
                               AddRow [Some ''D'', Some ''E'', Some ''F''] 0])))) = None"
proof -
  define t where "t = run TexTable_default [AddRow [Some ''A'', Some ''B'', Some ''C''] 0,
                               AddRow [Some ''D'', Some ''E'', Some ''F''] 0]"
  have shape: "list_all (\<lambda>rw. length rw = col_count t) (table t)"
    unfolding t_def by code_simp
  have first: "fst (merge ''X'' 0 0 (Some 2) (Some 1) None None t) = None"
    unfolding t_def by code_simp
  have cnt: "row_count t = 2" "col_count t = 3"
    unfolding t_def by code_simp+
  have ax: "resolve_axis 0 (Some 1) None = Inr (0, 1)" "resolve_axis 0 (Some 2) None = Inr (1, 2)"
    "resolve_axis 1 (Some 2) None = Inr (2, 2)"
    "resolve_axis 0 None (Some 0) = Inr (0, 1)" "resolve_axis 0 None (Some 1) = Inr (1, 2)"
    by (simp_all add: resolve_axis_def)
  have "merge ''Y'' 0 1 (Some 2) (Some 1) None None
          (snd (merge ''X'' 0 0 (Some 2) (Some 1) None None t))
        = (Some (ValueError overlap_message),
           snd (merge ''X'' 0 0 (Some 2) (Some 1) None None t))"
    using merge_after_merge [OF shape first ax(1) ax(2) ax(1) ax(3), of "''Y''"] cnt by simp
  moreover have "fst (merge ''Z'' 0 0 None None (Some 0) (Some 1)
          (snd (merge ''X'' 0 0 (Some 2) (Some 1) None None t))) = None"
    using merge_after_merge [OF shape first ax(1) ax(2) ax(4) ax(5), of "''Z''"] cnt by simp
  ultimately show ?thesis unfolding t_def by blast
qed

text \<open>
  The 2x2 table merged into one cell: a second merge of the single slot (0, 0), which
  lies inside the merged rectangle, raises the \<open>ValueError\<close> of the overlap check.
\<close>

theorem merge_inside_earlier_merge_counterexample:
  "fst (merge ''X'' 0 0 (Some 2) (Some 2) None None
          (run TexTable_default [AddRow [Some ''A'', Some ''B''] 0,
                                 AddRow [Some ''C'', Some ''D''] 0])) = None
   \<and> fst (merge ''Y'' 0 0 (Some 1) (Some 1) None None
          (snd (merge ''X'' 0 0 (Some 2) (Some 2) None None
             (run TexTable_default [AddRow [Some ''A'', Some ''B''] 0,
                                    AddRow [Some ''C'', Some ''D''] 0]))))
       = Some (ValueError overlap_message)"
  by code_simp

text \<open>
  The first comparison of the overlap check is against the row being visited, not the
  first row of the rectangle: a merge of the whole 2x2 table raises when its first
  column is already a two-row cell, although that cell lies inside the rectangle.
\<close>

lemma merge_around_two_row_merge:
  "fst (merge ''X'' 0 0 (Some 1) (Some 2) None None
          (run TexTable_default [AddRow [Some ''A'', Some ''B''] 0,
                                 AddRow [Some ''C'', Some ''D''] 0])) = None
   \<and> fst (merge ''Y'' 0 0 (Some 2) (Some 2) None None
          (snd (merge ''X'' 0 0 (Some 1) (Some 2) None None
             (run TexTable_default [AddRow [Some ''A'', Some ''B''] 0,
                                    AddRow [Some ''C'', Some ''D''] 0]))))
       = Some (ValueError overlap_message)"
  by code_simp

section \<open>The shape of the table under mutation\<close>

lemma grid_shape_rows:
  "grid_shape t \<longleftrightarrow>
     length (seps t) = (if col_styles t = [] then 0 else length (col_styles t) + 1)
     \<and> (\<forall>a<length (table t). length (table t ! a) = length (col_styles t))"
  by (simp add: grid_shape_def col_count_def list_all_length)

lemma grid_shape_frame:
  assumes "grid_shape t"
      and "col_styles t' = col_styles t" "seps t' = seps t"
      and "length (table t') = length (table t)"
      and "\<forall>a<length (table t). length (table t' ! a) = length (table t ! a)"
  shows "grid_shape t'"
  using assms by (simp add: grid_shape_rows)

lemma add_col_cells_rows:
  assumes "2 \<le> length (seps t)" "i + length vals \<le> length (table t)"
  shows "\<exists>t'. add_col_cells i vals t = (None, t')
           \<and> col_styles t' = col_styles t \<and> seps t' = seps t
           \<and> empty_value t' = empty_value t
           \<and> length (table t') = length (table t)
           \<and> (\<forall>a<length (table t).
                 length (table t' ! a)
                   = length (table t ! a) + (if i \<le> a \<and> a < i + length vals then 1 else 0))"
  using assms
proof (induction vals arbitrary: i t)
  case Nil
  then show ?case by simp
next
  case (Cons val vals)
  from Cons.prems have i: "i < length (table t)" by simp
  have rw: "py_index (table t) (int i) = Inr (table t ! i)"
    using i by (simp add: py_index_nonneg)
  from Cons.prems(1) obtain ls rs where
    ls: "py_index (seps t) (- 2) = Inr ls" and rs: "py_index (seps t) (- 1) = Inr rs"
    by (auto simp: py_index_def py_pos_def)
  let ?t1 = "t\<lparr>table := (table t)[i := table t ! i @ [length (cells t)]],
               cells := cells t @ [new_cell val (int i) (int (length (table t ! i))) 1 1 ls rs]\<rparr>"
  have step: "add_col_cells i (val # vals) t = add_col_cells (Suc i) vals ?t1"
    using rw ls rs by simp
  have "2 \<le> length (seps ?t1)" "Suc i + length vals \<le> length (table ?t1)"
    using Cons.prems by simp_all
  from Cons.IH [OF this] obtain t' where
    t': "add_col_cells (Suc i) vals ?t1 = (None, t')"
        "col_styles t' = col_styles t" "seps t' = seps t" "empty_value t' = empty_value t"
        "length (table t') = length (table t)"
        "\<forall>a<length (table t).
                 length (table t' ! a)
                   = length (table ?t1 ! a) + (if Suc i \<le> a \<and> a < Suc i + length vals then 1 else 0)"
    by auto
  have "length (table t' ! a)
          = length (table t ! a) + (if i \<le> a \<and> a < i + length (val # vals) then 1 else 0)"
    if a: "a < length (table t)" for a
  proof -
    have "length (table ?t1 ! a) = length (table t ! a) + (if a = i then 1 else 0)"
      using a by (simp add: nth_list_update)
    with t'(6) a show ?thesis by auto
  qed
  with step t' show ?case by simp
qed

lemma add_col_style_fields:
  "col_styles (add_col_style t) = col_styles t @ [''c'']"
  "seps (add_col_style t) = (if col_styles t = [] then seps t @ [[], []] else seps t @ [[]])"
  "table (add_col_style t) = table t"
  "empty_value (add_col_style t) = empty_value t"
  by (simp_all add: add_col_style_def Let_def)

lemma add_col_cells_all_rows:
  assumes "grid_shape t" "length vals = length (table t)"
  shows "\<exists>t'. add_col_cells 0 vals (add_col_style t) = (None, t') \<and> grid_shape t'
           \<and> col_styles t' = col_styles t @ [''c''] \<and> length (table t') = length (table t)
           \<and> empty_value t' = empty_value t"
proof -
  let ?s = "add_col_style t"
  from assms(1) have "2 \<le> length (seps ?s)"
    by (simp add: add_col_style_fields grid_shape_rows)
  moreover have "0 + length vals \<le> length (table ?s)"
    using assms(2) by (simp add: add_col_style_fields)
  ultimately obtain t' where
    t': "add_col_cells 0 vals ?s = (None, t')"
        "col_styles t' = col_styles ?s" "seps t' = seps ?s" "empty_value t' = empty_value ?s"
        "length (table t') = length (table ?s)"
        "\<forall>a<length (table ?s).
                 length (table t' ! a)
                   = length (table ?s ! a) + (if 0 \<le> a \<and> a < 0 + length vals then 1 else 0)"
    using add_col_cells_rows [of ?s 0 vals] by blast
  have "grid_shape t'"
    using assms t' by (simp add: grid_shape_rows add_col_style_fields)
  with t' show ?thesis by (simp add: add_col_style_fields)
qed

lemma add_col_empty_shape:
  assumes "grid_shape t"
  shows "\<exists>t'. add_col_empty t = (None, t') \<and> grid_shape t'
           \<and> col_styles t' = col_styles t @ [''c''] \<and> length (table t') = length (table t)
           \<and> empty_value t' = empty_value t"
proof -
  have "length (replicate (row_count (add_col_style t)) (empty_value (add_col_style t)))
          = length (table t)"
    by (simp add: row_count_def add_col_style_fields)
  from add_col_cells_all_rows [OF assms this] show ?thesis
    by (simp add: add_col_empty_def Let_def)
qed

lemma repeat_add_col_empty_shape:
  assumes "grid_shape t"
  shows "\<exists>t'. repeat_call n add_col_empty t = (None, t') \<and> grid_shape t'
           \<and> length (col_styles t') = length (col_styles t) + n
           \<and> length (table t') = length (table t) \<and> empty_value t' = empty_value t"
  using assms
proof (induction n arbitrary: t)
  case 0
  then show ?case by simp
next
  case (Suc n)
  from add_col_empty_shape [OF Suc.prems] obtain t1 where
    t1: "add_col_empty t = (None, t1)" "grid_shape t1" "col_styles t1 = col_styles t @ [''c'']"
        "length (table t1) = length (table t)" "empty_value t1 = empty_value t"
    by blast
  from Suc.IH [OF t1(2)] obtain t' where
    "repeat_call n add_col_empty t1 = (None, t')" "grid_shape t'"
    "length (col_styles t') = length (col_styles t1) + n"
    "length (table t') = length (table t1)" "empty_value t' = empty_value t1"
    by blast
  with t1 show ?case by simp
qed

lemma sequence_map_Inr:
  assumes "sequence (map f xs) = Inr ys"
  shows "length ys = length xs \<and> (\<forall>i<length xs. f (xs ! i) = Inr (ys ! i))"
  using assms
proof (induction xs arbitrary: ys)
  case Nil
  then show ?case by simp
next
  case (Cons x xs)
  from Cons.prems obtain y where y: "f x = Inr y"
    by (cases "f x") simp_all
  with Cons.prems obtain zs where zs: "sequence (map f xs) = Inr zs" "ys = y # zs"
    by (cases "sequence (map f xs)") auto
  from Cons.IH [OF zs(1)] have ih: "length zs = length xs"
    "\<forall>i<length xs. f (xs ! i) = Inr (zs ! i)" by simp_all
  have "f ((x # xs) ! i) = Inr (ys ! i)" if "i < length (x # xs)" for i
    using that y zs(2) ih(2) by (cases i) simp_all
  with ih(1) zs(2) show ?case by simp
qed

lemma add_row_cells_built:
  assumes "grid_shape t" "length vals = length (col_styles t)"
  shows "\<exists>new_cells. new_row_cells t vals = Inr new_cells \<and> length new_cells = length vals"
proof -
  let ?f = "\<lambda>(i, val).
               case py_index (seps t) (int i) of
                 Inl e \<Rightarrow> Inl e
               | Inr ls \<Rightarrow>
                   (case py_index (seps t) (int i + 1) of
                      Inl e \<Rightarrow> Inl e
                    | Inr rs \<Rightarrow> Inr (new_cell val (int (length (table t))) (int i) 1 1 ls rs))"
  have "\<exists>y. x = Inr y" if "x \<in> set (map ?f (enumerate 0 vals))" for x
  proof -
    from that obtain i val where iv: "(i, val) \<in> set (enumerate 0 vals)"
      and x: "x = ?f (i, val)"
      by auto
    from iv have "i < length vals" by (simp add: in_set_enumerate_eq)
    with assms have "i < length (col_styles t)" "length (seps t) = length (col_styles t) + 1"
      by (auto simp: grid_shape_rows)
    then have "py_index (seps t) (int i) = Inr (seps t ! i)"
      "py_index (seps t) (int i + 1) = Inr (seps t ! nat (int i + 1))"
      by (simp_all add: py_index_nonneg)
    with x show ?thesis by simp
  qed
  then have "\<forall>x\<in>set (map ?f (enumerate 0 vals)). \<exists>y. x = Inr y" by blast
  from sequence_Inr [OF this] show ?thesis by (simp add: new_row_cells_def)
qed

lemma add_row_append:
  assumes "grid_shape t" "length vals = length (col_styles t)"
  shows "\<exists>new_cells.
          (case new_row_cells t vals of
                Inl e \<Rightarrow> (Some e, t)
              | Inr new_cells \<Rightarrow>
                  (None, t\<lparr>table := table t
                                  @ [[length (cells t)..<length (cells t) + length new_cells]],
                            cells := cells t @ new_cells\<rparr>))
          = (None, t\<lparr>table := table t
                                  @ [[length (cells t)..<length (cells t) + length new_cells]],
                            cells := cells t @ new_cells\<rparr>)
          \<and> grid_shape (t\<lparr>table := table t
                                  @ [[length (cells t)..<length (cells t) + length new_cells]],
                            cells := cells t @ new_cells\<rparr>)"
proof -
  from add_row_cells_built [OF assms] obtain new_cells where
    n: "new_row_cells t vals = Inr new_cells" "length new_cells = length vals" by blast
  have "grid_shape (t\<lparr>table := table t
                                  @ [[length (cells t)..<length (cells t) + length new_cells]],
                            cells := cells t @ new_cells\<rparr>)"
    using assms n(2) by (auto simp: grid_shape_rows nth_append)
  with n(1) show ?thesis by auto
qed

text \<open>On a table in shape, \<open>add_row\<close> never raises and keeps the shape.\<close>

lemma add_row_shape:
  assumes "grid_shape t"
  shows "fst (add_row values start t) = None \<and> grid_shape (snd (add_row values start t))"
proof -
  define vals0 where "vals0 = map (\<lambda>v. case v of Some s \<Rightarrow> s | None \<Rightarrow> empty_value t) values"
  define vals1 where
    "vals1 = (if start > 0 then replicate (nat start) (empty_value t) @ vals0 else vals0)"
  show ?thesis
  proof (cases "length vals1 < col_count t")
    case True
    let ?vals = "vals1 @ replicate (col_count t - length vals1) (empty_value t)"
    from True have "length ?vals = length (col_styles t)" by (simp add: col_count_def)
    from add_row_append [OF assms this] True show ?thesis
      by (auto simp: add_row_def Let_def vals0_def vals1_def)
  next
    case False
    show ?thesis
    proof (cases "length vals1 > col_count t")
      case True
      from repeat_add_col_empty_shape [OF assms, of "length vals1 - col_count t"]
      obtain t1 where t1: "repeat_call (length vals1 - col_count t) add_col_empty t = (None, t1)"
        "grid_shape t1" "length (col_styles t1) = length (col_styles t) + (length vals1 - col_count t)"
        by blast
      from t1(3) True have "length vals1 = length (col_styles t1)" by (simp add: col_count_def)
      from add_row_append [OF t1(2) this] True t1(1) show ?thesis
        by (auto simp: add_row_def Let_def vals0_def vals1_def)
    next
      case False
      with \<open>\<not> length vals1 < col_count t\<close> have "length vals1 = length (col_styles t)"
        by (simp add: col_count_def)
      from add_row_append [OF assms this] False \<open>\<not> length vals1 < col_count t\<close> show ?thesis
        by (auto simp: add_row_def Let_def vals0_def vals1_def)
    qed
  qed
qed

lemma add_col_shape:
  assumes "grid_shape t" "within_rows (AddCol values start) t"
  shows "fst (add_col values start t) = None \<and> grid_shape (snd (add_col values start t))"
proof -
  let ?s = "add_col_style t"
  define vals1 where
    "vals1 = (if start > 0 then replicate (nat start) (empty_value ?s) @ values else values)"
  from assms(2) have le: "length vals1 \<le> row_count ?s"
    by (auto simp: vals1_def row_count_def add_col_style_fields)
  show ?thesis
  proof (cases "length vals1 < row_count ?s")
    case True
    let ?vals = "vals1 @ replicate (row_count ?s - length vals1) (empty_value ?s)"
    from True have "length ?vals = length (table t)"
      by (simp add: row_count_def add_col_style_fields)
    from add_col_cells_all_rows [OF assms(1) this] True show ?thesis
      by (auto simp: add_col_def Let_def vals1_def)
  next
    case False
    with le have eq: "length vals1 = row_count ?s" by simp
    then have "length vals1 = length (table t)"
      by (simp add: row_count_def add_col_style_fields)
    from add_col_cells_all_rows [OF assms(1) this] eq show ?thesis
      by (auto simp: add_col_def Let_def vals1_def)
  qed
qed

text \<open>\<open>add_col\<close> with no values and \<open>start = 0\<close> is the function \<open>add_row\<close> calls.\<close>

lemma add_col_no_values: "add_col [] 0 t = add_col_empty t"
proof -
  let ?s = "add_col_style t"
  show ?thesis
  proof (cases "row_count ?s")
    case 0
    then show ?thesis by (simp add: add_col_def add_col_empty_def Let_def)
  next
    case (Suc n)
    then show ?thesis by (simp add: add_col_def add_col_empty_def Let_def)
  qed
qed

lemma update_cells_frame:
  "table (snd (update_cells f ps t)) = table t
   \<and> col_styles (snd (update_cells f ps t)) = col_styles t
   \<and> seps (snd (update_cells f ps t)) = seps t"
proof (induction ps arbitrary: t)
  case Nil
  then show ?case by simp
next
  case (Cons p ps)
  obtain i j where p: "p = (i, j)" by (cases p)
  show ?case
  proof (cases "grid_ref t i j")
    case (Inl e)
    with p show ?thesis by simp
  next
    case (Inr k)
    have "grid_ref t i j = Inr k \<Longrightarrow>
            update_cells f (p # ps) t
              = update_cells f ps (t\<lparr>cells := (cells t)[k := f (cells t ! k)]\<rparr>)"
      using p by simp
    with Inr Cons.IH [of "t\<lparr>cells := (cells t)[k := f (cells t ! k)]\<rparr>"] show ?thesis by simp
  qed
qed

lemma update_cells_shape:
  assumes "grid_shape t"
  shows "grid_shape (snd (update_cells f ps t))"
  using update_cells_frame [of f ps t] assms by (simp add: grid_shape_rows)

lemma merge_shape:
  assumes "grid_shape t"
  shows "grid_shape (snd (merge v r c w h tr tc t))"
proof (cases "fst (merge v r c w h tr tc t)")
  case None
  from merge_success [OF None] have
    "seps (snd (merge v r c w h tr tc t)) = seps t"
    "col_styles (snd (merge v r c w h tr tc t)) = col_styles t"
    "length (table (snd (merge v r c w h tr tc t))) = length (table t)"
    "\<forall>a<length (table t).
        length (table (snd (merge v r c w h tr tc t)) ! a) = length (table t ! a)"
    by blast+
  with assms show ?thesis by (simp add: grid_shape_rows)
next
  case (Some e)
  from merge_failure_unchanged [OF Some] assms show ?thesis by (simp add: grid_shape_rows)
qed

lemma setitem_shape:
  assumes "grid_shape t"
  shows "grid_shape (snd (table_setitem i j v t))"
proof (cases "\<exists>a b. i = IntIdx a \<and> j = IntIdx b")
  case True
  then obtain a b where "i = IntIdx a" "j = IntIdx b" by blast
  with assms show ?thesis
    by (cases "grid_ref t a b") (simp_all add: table_setitem_def grid_shape_rows)
next
  case False
  then have unfold: "table_setitem i j v t =
     (case get_indexing_bounds t i j of
        Inl e \<Rightarrow> (Some e, t)
      | Inr (r, c, to_row, to_col) \<Rightarrow> merge v r c None None (Some to_row) (Some to_col) t)"
    by (auto simp: table_setitem_def split: index.splits)
  show ?thesis
  proof (cases "get_indexing_bounds t i j")
    case (Inl e)
    with unfold assms show ?thesis by simp
  next
    case (Inr b)
    obtain r c to_row to_col where b: "b = (r, c, to_row, to_col)" by (cases b)
    from merge_shape [OF assms, of v r c None None "Some to_row" "Some to_col"] unfold Inr b
    show ?thesis by simp
  qed
qed

lemma step_shape:
  assumes "grid_shape t" "within_rows m t"
  shows "grid_shape (snd (step m t))"
proof (cases m)
  case (AddRow vs start)
  with add_row_shape [OF assms(1)] show ?thesis by simp
next
  case (AddCol vs start)
  with add_col_shape [OF assms(1)] assms(2) show ?thesis by simp
next
  case (Merge v r c w h to_row to_col)
  with merge_shape [OF assms(1)] show ?thesis by simp
next
  case (AddRule r kind)
  with assms(1) show ?thesis
    by (simp add: add_rule_def depends_on_def grid_shape_rows Let_def)
next
  case (AddCline r from_col to_col)
  with assms(1) show ?thesis
    by (simp add: add_cline_def depends_on_def grid_shape_rows Let_def)
next
  case (AddCmidrule r from_col to_col options)
  with assms(1) show ?thesis
    by (simp add: add_cmidrule_def depends_on_def grid_shape_rows Let_def)
next
  case (SetItem i j v)
  with setitem_shape [OF assms(1)] show ?thesis by simp
next
  case (SetValue s v)
  with update_cells_shape [OF assms(1)] show ?thesis by (simp add: set_value_def)
next
  case (ForEach s func)
  with update_cells_shape [OF assms(1)] show ?thesis by (simp add: for_each_def)
next
  case (SetBold s val)
  with update_cells_shape [OF assms(1)] show ?thesis by (simp add: set_bold_def)
next
  case (SetItalic s val)
  with update_cells_shape [OF assms(1)] show ?thesis by (simp add: set_italic_def)
next
  case (SetBackgroundColor s val)
  from assms(1) have "grid_shape (depends_on ''xcolor'' (depends_on ''colortbl'' t))"
    by (simp add: depends_on_def grid_shape_rows)
  from update_cells_shape [OF this] SetBackgroundColor show ?thesis
    by (simp add: set_background_color_def)
next
  case (SetRotation s degree_text options)
  from assms(1) have "grid_shape (depends_on ''graphicx'' t)"
    by (simp add: depends_on_def grid_shape_rows)
  from update_cells_shape [OF this] SetRotation show ?thesis
    by (simp add: set_rotation_def)
qed

lemma run_shape:
  assumes "grid_shape t" "all_within_rows t ms"
  shows "grid_shape (run t ms)"
  using assms
proof (induction ms arbitrary: t)
  case Nil
  then show ?case by simp
next
  case (Cons m ms)
  from Cons.prems have "grid_shape (snd (step m t))" "all_within_rows (snd (step m t)) ms"
    by (simp_all add: step_shape)
  from Cons.IH [OF this] show ?case by simp
qed

lemma all_within_rows_take:
  "all_within_rows t ms \<Longrightarrow> all_within_rows t (take n ms)"
proof (induction ms arbitrary: t n)
  case Nil
  then show ?case by simp
next
  case (Cons m ms)
  then show ?case by (cases n) simp_all
qed

lemma grid_shape_init:
  "grid_shape (TexTable_init centered' caption' caption_after_table' position' star'
                 empty_value' label' cmd')"
  by (simp add: grid_shape_def TexTable_init_def col_count_def)

lemma grid_shape_stated:
  "grid_shape t \<Longrightarrow> col_styles t \<noteq> [] \<Longrightarrow> stated_invariant t"
  by (simp add: grid_shape_def stated_invariant_def col_count_def)

text \<open>
  Claim C8. From a table in the shape the code keeps (a fresh table is in it), after each
  mutation of a sequence in which \<open>add_col\<close> is never called with more values than
  the table has rows, the table is in that shape again: \<open>col_count\<close> is the number of
  column styles, the separator list is empty while there is no column and has
  \<open>col_count + 1\<close> entries from the first column on, and every grid row has
  \<open>col_count\<close> slots. From the first column on, this is the invariant as stated.
\<close>

theorem shape_after_each_mutation:
  assumes "grid_shape t" "all_within_rows t ms"
  shows "grid_shape (run t (take n ms))
       \<and> (col_styles (run t (take n ms)) = [] \<longrightarrow> seps (run t (take n ms)) = [])
       \<and> (col_styles (run t (take n ms)) \<noteq> [] \<longrightarrow> stated_invariant (run t (take n ms)))"
proof -
  from assms(2) have "all_within_rows t (take n ms)" by (rule all_within_rows_take)
  with assms(1) have g: "grid_shape (run t (take n ms))" by (rule run_shape)
  then have "col_styles (run t (take n ms)) = [] \<longrightarrow> seps (run t (take n ms)) = []"
    by (auto simp: grid_shape_def split: if_splits)
  with g grid_shape_stated show ?thesis by blast
qed

text \<open>
  A run of \<open>add_row\<close>, \<open>add_col\<close>, \<open>add_row\<close> with a start column, \<open>merge\<close> and
  \<open>add_rule\<close> from the default table; and the default table after one \<open>add_rule\<close>.
\<close>

theorem shape_after_each_mutation_witness:
  "stated_invariant (run TexTable_default
      [AddRow [Some ''A'', Some ''B''] 0, AddCol [''x''] 0, AddRow [None] 2,
       Merge ''M'' 0 0 (Some 2) (Some 1) None None, AddRule None MID])
   \<and> grid_shape (run TexTable_default [AddRule None TOP])"
proof -
  define ms where "ms = [AddRow [Some ''A'', Some ''B''] 0, AddCol [''x''] 0, AddRow [None] 2,
       Merge ''M'' 0 0 (Some 2) (Some 1) None None, AddRule None MID]"
  have g: "grid_shape TexTable_default"
    unfolding TexTable_default_def by (rule grid_shape_init)
  have w: "all_within_rows TexTable_default ms"
    unfolding ms_def by code_simp
  have w1: "all_within_rows TexTable_default [AddRule None TOP]"
    by code_simp
  have c: "col_styles (run TexTable_default ms) \<noteq> []"
    unfolding ms_def by code_simp
  from shape_after_each_mutation [OF g w, of 5] c
  have "stated_invariant (run TexTable_default ms)" by (simp add: ms_def)
  moreover from shape_after_each_mutation [OF g w1, of 1]
  have "grid_shape (run TexTable_default [AddRule None TOP])" by simp
  ultimately show ?thesis unfolding ms_def by blast
qed

text \<open>
  After \<open>add_row()\<close> with no values on the default table there is no column and no
  separator, so the number of separators minus one is not \<open>col_count\<close>.
\<close>

theorem stated_invariant_no_column_counterexample:
  "\<not> stated_invariant (run TexTable_default [AddRow [] 0])
   \<and> col_count (run TexTable_default [AddRow [] 0]) = 0
   \<and> seps (run TexTable_default [AddRow [] 0]) = []"
  by code_simp

text \<open>
  \<open>add_col("a", "b")\<close> on the default table: the rows that \<open>add_col\<close> adds through
  \<open>add_row()\<close> already have a slot for the new column, and the final loop appends a
  second one, so both rows have two slots for one column.
\<close>

lemma add_col_more_values_than_rows:
  "col_count (run TexTable_default [AddCol [''a'', ''b''] 0]) = 1
   \<and> table (run TexTable_default [AddCol [''a'', ''b''] 0]) = [[0, 2], [1, 3]]"
  by code_simp

section \<open>Tables built by the methods\<close>

text \<open>
  The hypotheses on the grid that the theorems about \<open>render\<close> make hold for every
  table built from a fresh one by the mutating methods, whether the calls succeed or
  raise: every slot holds the address of a cell whose rectangle contains the slot.
\<close>

lemma well_formed_slots:
  "well_formed t \<longleftrightarrow>
     (\<forall>a<length (table t). \<forall>b<length (table t ! a).
        table t ! a ! b < length (cells t) \<and> slot_covered t a b (table t ! a ! b))"
  by (auto simp: well_formed_def refs_valid_def cells_cover_def list_all_length
                 nth_enumerate_eq)

lemma slot_covered_cong:
  assumes "row (cells t' ! k) = row (cells t ! k)" "col (cells t' ! k) = col (cells t ! k)"
      and "width (cells t' ! k) = width (cells t ! k)"
      and "height (cells t' ! k) = height (cells t ! k)"
  shows "slot_covered t' a b k = slot_covered t a b k"
  using assms by (simp add: slot_covered_def)

lemma slot_covered_append:
  assumes "k < length (cells t)" "cells t' = cells t @ new"
  shows "slot_covered t' a b k = slot_covered t a b k"
  using assms by (simp add: slot_covered_def nth_append)

lemma well_formed_frame:
  assumes "well_formed t" "table t' = table t" "cells t' = cells t"
  shows "well_formed t'"
  using assms by (simp add: well_formed_slots slot_covered_def)

lemma py_index_nat:
  "py_index xs (int i) = Inr y \<Longrightarrow> i < length xs \<and> y = xs ! i"
  by (simp add: py_index_nonneg split: if_splits)

lemma add_col_cells_step_wf:
  assumes wf: "well_formed t" and i: "i < length (table t)"
  shows "well_formed
           (t\<lparr>table := (table t)[i := table t ! i @ [length (cells t)]],
              cells := cells t @ [new_cell val (int i) (int (length (table t ! i))) 1 1 ls rs]\<rparr>)"
    (is "well_formed ?t1")
proof -
  have "table ?t1 ! a ! b < length (cells ?t1) \<and> slot_covered ?t1 a b (table ?t1 ! a ! b)"
    if a: "a < length (table ?t1)" and b: "b < length (table ?t1 ! a)" for a b
  proof (cases "a = i \<and> b = length (table t ! i)")
    case True
    with i show ?thesis by (simp add: slot_covered_def new_cell_def)
  next
    case False
    from a have a': "a < length (table t)" by simp
    from False a' b i have b': "b < length (table t ! a)"
      by (cases "a = i") (auto simp: nth_list_update)
    from False a' b' i have same: "table ?t1 ! a ! b = table t ! a ! b"
      by (cases "a = i") (auto simp: nth_list_update nth_append)
    from wf a' b' have old: "table t ! a ! b < length (cells t)"
      "slot_covered t a b (table t ! a ! b)"
      by (simp_all add: well_formed_slots)
    from old(1) have "slot_covered ?t1 a b (table t ! a ! b) = slot_covered t a b (table t ! a ! b)"
      by (simp add: slot_covered_def nth_append)
    with old same show ?thesis by simp
  qed
  then show ?thesis by (simp only: well_formed_slots) blast
qed

lemma add_col_cells_wf:
  "well_formed t \<Longrightarrow> well_formed (snd (add_col_cells i vals t))"
proof (induction vals arbitrary: i t)
  case Nil
  then show ?case by simp
next
  case (Cons val vals)
  show ?case
  proof (cases "py_index (table t) (int i)")
    case (Inl e)
    with Cons.prems show ?thesis by simp
  next
    case rw: (Inr rw)
    from py_index_nat [OF rw] have i: "i < length (table t)" and rw': "rw = table t ! i"
      by simp_all
    show ?thesis
    proof (cases "py_index (seps t) (- 2)")
      case (Inl e)
      with rw Cons.prems show ?thesis by simp
    next
      case ls: (Inr ls)
      show ?thesis
      proof (cases "py_index (seps t) (- 1)")
        case (Inl e)
        with rw ls Cons.prems show ?thesis by simp
      next
        case rs: (Inr rs)
        let ?t1 = "t\<lparr>table := (table t)[i := table t ! i @ [length (cells t)]],
              cells := cells t @ [new_cell val (int i) (int (length (table t ! i))) 1 1 ls rs]\<rparr>"
        have "well_formed ?t1" by (rule add_col_cells_step_wf [OF Cons.prems i])
        from Cons.IH [OF this, of "Suc i"] rw rw' ls rs show ?thesis by simp
      qed
    qed
  qed
qed

lemma add_col_style_wf:
  assumes "well_formed t"
  shows "well_formed (add_col_style t)"
proof (rule well_formed_frame [OF assms])
  show "table (add_col_style t) = table t" by (simp add: add_col_style_def Let_def)
  show "cells (add_col_style t) = cells t" by (simp add: add_col_style_def Let_def)
qed

lemma add_col_empty_wf: "well_formed t \<Longrightarrow> well_formed (snd (add_col_empty t))"
  by (simp add: add_col_empty_def Let_def add_col_cells_wf add_col_style_wf)

lemma repeat_call_wf:
  assumes "\<And>t. well_formed t \<Longrightarrow> well_formed (snd (f t))" "well_formed t"
  shows "well_formed (snd (repeat_call n f t))"
  using assms(2)
proof (induction n arbitrary: t)
  case 0
  then show ?case by simp
next
  case (Suc n)
  obtain e t1 where f: "f t = (e, t1)" by (cases "f t")
  with assms(1) [OF Suc.prems] have wf1: "well_formed t1" by simp
  show ?case
  proof (cases e)
    case None
    with f Suc.IH [OF wf1] show ?thesis by simp
  next
    case (Some x)
    with f wf1 show ?thesis by simp
  qed
qed

lemma new_row_wf:
  assumes wf: "well_formed t" and n: "new_row_cells t vals = Inr new_cells"
  shows "well_formed (t\<lparr>table := table t
                                  @ [[length (cells t)..<length (cells t) + length new_cells]],
                            cells := cells t @ new_cells\<rparr>)"
    (is "well_formed ?t2")
proof -
  let ?f = "\<lambda>(i, val).
               case py_index (seps t) (int i) of
                 Inl e \<Rightarrow> Inl e
               | Inr ls \<Rightarrow>
                   (case py_index (seps t) (int i + 1) of
                      Inl e \<Rightarrow> Inl e
                    | Inr rs \<Rightarrow> Inr (new_cell val (int (length (table t))) (int i) 1 1 ls rs))"
  from n have "sequence (map ?f (enumerate 0 vals)) = Inr new_cells"
    by (simp add: new_row_cells_def)
  from sequence_map_Inr [OF this]
  have len: "length new_cells = length vals"
    and each: "\<forall>i<length vals. ?f (enumerate 0 vals ! i) = Inr (new_cells ! i)"
    by simp_all
  have geo: "row (new_cells ! b) = int (length (table t)) \<and> col (new_cells ! b) = int b
             \<and> width (new_cells ! b) = 1 \<and> height (new_cells ! b) = 1"
    if b: "b < length new_cells" for b
  proof -
    from b len each have "?f (b, vals ! b) = Inr (new_cells ! b)"
      by (simp add: nth_enumerate_eq)
    then obtain ls rs where
      "new_cell (vals ! b) (int (length (table t))) (int b) 1 1 ls rs = new_cells ! b"
      by (auto split: sum.splits)
    then have "new_cells ! b = new_cell (vals ! b) (int (length (table t))) (int b) 1 1 ls rs"
      by (rule sym)
    then show ?thesis by (simp add: new_cell_def)
  qed
  have "table ?t2 ! a ! b < length (cells ?t2) \<and> slot_covered ?t2 a b (table ?t2 ! a ! b)"
    if a: "a < length (table ?t2)" and b: "b < length (table ?t2 ! a)" for a b
  proof (cases "a < length (table t)")
    case True
    with b have b': "b < length (table t ! a)" by (simp add: nth_append)
    from wf True b' have old: "table t ! a ! b < length (cells t)"
      "slot_covered t a b (table t ! a ! b)"
      by (simp_all add: well_formed_slots)
    from old(1) have "slot_covered ?t2 a b (table t ! a ! b) = slot_covered t a b (table t ! a ! b)"
      by (simp add: slot_covered_def nth_append)
    with old True show ?thesis by (simp add: nth_append)
  next
    case False
    with a have a': "a = length (table t)" by simp
    with b have b': "b < length new_cells" by (simp add: nth_append)
    from a' b' have id: "table ?t2 ! a ! b = length (cells t) + b" by (simp add: nth_append)
    from geo [OF b'] a' b' show ?thesis
      unfolding id by (simp add: slot_covered_def nth_append)
  qed
  then show ?thesis by (simp only: well_formed_slots) blast
qed

lemma add_row_wf:
  assumes "well_formed t"
  shows "well_formed (snd (add_row values start t))"
proof -
  define vals1 where
    "vals1 = (if start > 0
              then replicate (nat start) (empty_value t)
                     @ map (\<lambda>v. case v of Some s \<Rightarrow> s | None \<Rightarrow> empty_value t) values
              else map (\<lambda>v. case v of Some s \<Rightarrow> s | None \<Rightarrow> empty_value t) values)"
  define finish where
    "finish = (\<lambda>u vals. case new_row_cells u vals of
                Inl e \<Rightarrow> (Some e, u)
              | Inr new_cells \<Rightarrow>
                  (None, u\<lparr>table := table u
                                  @ [[length (cells u)..<length (cells u) + length new_cells]],
                            cells := cells u @ new_cells\<rparr>))"
  have unfold: "add_row values start t =
     (if length vals1 < col_count t
      then finish t (vals1 @ replicate (col_count t - length vals1) (empty_value t))
      else if length vals1 > col_count t
      then (case repeat_call (length vals1 - col_count t) add_col_empty t of
              (Some e, u) \<Rightarrow> (Some e, u)
            | (None, u) \<Rightarrow> finish u vals1)
      else finish t vals1)"
    unfolding vals1_def finish_def by (simp add: add_row_def Let_def)
  have fin: "well_formed (snd (finish u vals))" if "well_formed u" for u vals
    using that new_row_wf [OF that, of vals]
    by (cases "new_row_cells u vals") (simp_all add: finish_def)
  show ?thesis
  proof (cases "length vals1 > col_count t")
    case True
    obtain e t1 where g: "repeat_call (length vals1 - col_count t) add_col_empty t = (e, t1)"
      by (cases "repeat_call (length vals1 - col_count t) add_col_empty t")
    from repeat_call_wf [of add_col_empty t "length vals1 - col_count t"] add_col_empty_wf assms g
    have wf1: "well_formed t1" by simp
    from True unfold g fin [OF wf1] wf1 show ?thesis
      by (cases e) simp_all
  next
    case False
    with unfold fin [OF assms] show ?thesis by simp
  qed
qed

lemma add_col_wf:
  assumes "well_formed t"
  shows "well_formed (snd (add_col values start t))"
proof -
  let ?s = "add_col_style t"
  have s: "well_formed ?s" by (rule add_col_style_wf [OF assms])
  define vals1 where
    "vals1 = (if start > 0 then replicate (nat start) (empty_value ?s) @ values else values)"
  have unfold: "add_col values start t =
     (if length vals1 < row_count ?s
      then add_col_cells 0 (vals1 @ replicate (row_count ?s - length vals1) (empty_value ?s)) ?s
      else if length vals1 > row_count ?s
      then (case repeat_call (length vals1 - row_count ?s) (add_row [] 0) ?s of
              (Some e, u) \<Rightarrow> (Some e, u)
            | (None, u) \<Rightarrow> add_col_cells 0 vals1 u)
      else add_col_cells 0 vals1 ?s)"
    unfolding vals1_def by (simp add: add_col_def Let_def)
  show ?thesis
  proof (cases "length vals1 > row_count ?s")
    case True
    obtain e t1 where g: "repeat_call (length vals1 - row_count ?s) (add_row [] 0) ?s = (e, t1)"
      by (cases "repeat_call (length vals1 - row_count ?s) (add_row [] 0) ?s")
    from repeat_call_wf [of "add_row [] 0" ?s "length vals1 - row_count ?s"] add_row_wf s g
    have wf1: "well_formed t1" by simp
    from True unfold g add_col_cells_wf [OF wf1] wf1 show ?thesis
      by (cases e) simp_all
  next
    case False
    with unfold add_col_cells_wf [OF s] show ?thesis by simp
  qed
qed

lemma merge_success_grid:
  assumes ok: "fst (merge v r c w h tr tc t) = None"
      and r1: "resolve_axis r h tr = Inr (to_row, hh)" "resolve_axis c w tc = Inr (to_col, ww)"
  shows "\<forall>a<length (table t). \<forall>b<length (table t ! a).
           table (snd (merge v r c w h tr tc t)) ! a ! b
             = (if (int a, int b) \<in> set (slots r c to_row to_col)
                then length (cells t) else table t ! a ! b)"
proof -
  from merge_success [OF ok] r1 obtain ls rs where
    v: "0 \<le> r" "r \<le> to_row" "to_row < int (length (table t))"
       "0 \<le> c" "c \<le> to_col" "to_col < int (col_count t)"
       "check_cells t c to_row to_col (slots r c to_row to_col) = None"
       "py_index (seps t) c = Inr ls" "py_index (seps t) (to_col + 1) = Inr rs"
    by auto
  let ?t1 = "if hh > 1 then depends_on ''multirow'' t else t"
  have t1: "table ?t1 = table t" "cells ?t1 = cells t" "seps ?t1 = seps t"
    by (simp_all add: depends_on_def)
  let ?t2 = "?t1\<lparr>cells := cells ?t1 @ [new_cell v r c ww hh ls rs]\<rparr>"
  have "r < int (length (table t))" "c < int (col_count t)" using v by simp_all
  from merge_validated [OF v(1) this(1) v(4) this(2) r1 v(2,3) v(5,6) v(7), of v] v(8,9) t1
  have res: "merge v r c w h tr tc t
               = assign_cells (length (cells ?t1)) (slots r c to_row to_col) ?t2"
    by (simp add: Let_def)
  have "\<forall>p\<in>set (slots r c to_row to_col).
              0 \<le> fst p \<and> 0 \<le> snd p \<and> fst p < int (length (table ?t2))
              \<and> snd p < int (length (table ?t2 ! nat (fst p)))"
    using slots_valid_after_check [OF v(7) v(1) v(4)] t1 by simp
  from assign_cells_valid [OF this, of "length (cells ?t1)"] res show ?thesis
    by (simp add: depends_on_def)
qed

lemma merge_wf:
  assumes wf: "well_formed t"
  shows "well_formed (snd (merge v r c w h tr tc t))"
proof (cases "fst (merge v r c w h tr tc t)")
  case (Some e)
  from merge_failure_unchanged [OF Some] show ?thesis
    by (intro well_formed_frame [OF wf]) simp_all
next
  case None
  let ?t' = "snd (merge v r c w h tr tc t)"
  from merge_success [OF None] obtain to_row hh to_col ww ls rs where
    m: "resolve_axis r h tr = Inr (to_row, hh)" "resolve_axis c w tc = Inr (to_col, ww)"
       "cells ?t' = cells t @ [new_cell v r c ww hh ls rs]"
       "length (table ?t') = length (table t)"
       "\<forall>a<length (table t). length (table ?t' ! a) = length (table t ! a)"
    by blast
  have size: "hh = to_row - r + 1" "ww = to_col - c + 1"
    using m(1,2) by (auto dest: resolve_axis_size)
  note grid = merge_success_grid [OF None m(1,2)]
  have "table ?t' ! a ! b < length (cells ?t') \<and> slot_covered ?t' a b (table ?t' ! a ! b)"
    if a: "a < length (table ?t')" and b: "b < length (table ?t' ! a)" for a b
  proof -
    from a m(4) have a': "a < length (table t)" by simp
    with b m(5) have b': "b < length (table t ! a)" by simp
    show ?thesis
    proof (cases "(int a, int b) \<in> set (slots r c to_row to_col)")
      case True
      with grid a' b' have id: "table ?t' ! a ! b = length (cells t)" by simp
      from True have "r \<le> int a" "int a \<le> to_row" "c \<le> int b" "int b \<le> to_col"
        by (auto simp: set_slots)
      with size m(3) show ?thesis
        unfolding id by (simp add: slot_covered_def new_cell_def)
    next
      case False
      with grid a' b' have id: "table ?t' ! a ! b = table t ! a ! b" by simp
      from wf a' b' have old: "table t ! a ! b < length (cells t)"
        "slot_covered t a b (table t ! a ! b)"
        by (simp_all add: well_formed_slots)
      from old(1) m(3)
      have "slot_covered ?t' a b (table t ! a ! b) = slot_covered t a b (table t ! a ! b)"
        by (simp add: slot_covered_def nth_append)
      with old m(3) show ?thesis unfolding id by simp
    qed
  qed
  then show ?thesis by (simp only: well_formed_slots) blast
qed

lemma update_cell_wf:
  assumes wf: "well_formed t"
      and geo: "row (f (cells t ! k)) = row (cells t ! k)" "col (f (cells t ! k)) = col (cells t ! k)"
               "width (f (cells t ! k)) = width (cells t ! k)"
               "height (f (cells t ! k)) = height (cells t ! k)"
  shows "well_formed (t\<lparr>cells := (cells t)[k := f (cells t ! k)]\<rparr>)"
    (is "well_formed ?t1")
proof -
  have "table ?t1 ! a ! b < length (cells ?t1) \<and> slot_covered ?t1 a b (table ?t1 ! a ! b)"
    if a: "a < length (table ?t1)" and b: "b < length (table ?t1 ! a)" for a b
  proof -
    from wf a b have old: "table t ! a ! b < length (cells t)"
      "slot_covered t a b (table t ! a ! b)"
      by (simp_all add: well_formed_slots)
    have "slot_covered ?t1 a b (table t ! a ! b) = slot_covered t a b (table t ! a ! b)"
      using old(1) geo by (cases "table t ! a ! b = k") (simp_all add: slot_covered_def)
    with old show ?thesis by simp
  qed
  then show ?thesis by (simp only: well_formed_slots) blast
qed

lemma update_cells_wf:
  assumes geo: "\<And>c. row (f c) = row c \<and> col (f c) = col c \<and> width (f c) = width c
                     \<and> height (f c) = height c"
      and wf: "well_formed t"
  shows "well_formed (snd (update_cells f ps t))"
  using wf
proof (induction ps arbitrary: t)
  case Nil
  then show ?case by simp
next
  case (Cons p ps)
  obtain i j where p: "p = (i, j)" by (cases p)
  show ?case
  proof (cases "grid_ref t i j")
    case (Inl e)
    with p Cons.prems show ?thesis by simp
  next
    case (Inr k)
    have "well_formed (t\<lparr>cells := (cells t)[k := f (cells t ! k)]\<rparr>)"
      using geo by (intro update_cell_wf [OF Cons.prems]) simp_all
    from Cons.IH [OF this] Inr p show ?thesis by simp
  qed
qed

lemma depends_on_wf: "well_formed t \<Longrightarrow> well_formed (depends_on dep t)"
  by (erule well_formed_frame) (simp_all add: depends_on_def)

lemma setitem_wf:
  assumes wf: "well_formed t"
  shows "well_formed (snd (table_setitem i j v t))"
proof (cases "\<exists>a b. i = IntIdx a \<and> j = IntIdx b")
  case True
  then obtain a b where ij: "i = IntIdx a" "j = IntIdx b" by blast
  show ?thesis
  proof (cases "grid_ref t a b")
    case (Inl e)
    with ij wf show ?thesis by (simp add: table_setitem_def)
  next
    case (Inr k)
    have "well_formed (t\<lparr>cells := (cells t)[k := (\<lambda>c. c\<lparr>raw_value := v\<rparr>) (cells t ! k)]\<rparr>)"
      by (intro update_cell_wf [OF wf]) simp_all
    with ij Inr show ?thesis by (simp add: table_setitem_def)
  qed
next
  case False
  then have unfold: "table_setitem i j v t =
     (case get_indexing_bounds t i j of
        Inl e \<Rightarrow> (Some e, t)
      | Inr (r, c, to_row, to_col) \<Rightarrow> merge v r c None None (Some to_row) (Some to_col) t)"
    by (auto simp: table_setitem_def split: index.splits)
  show ?thesis
  proof (cases "get_indexing_bounds t i j")
    case (Inl e)
    with unfold wf show ?thesis by simp
  next
    case (Inr b)
    obtain r c to_row to_col where b: "b = (r, c, to_row, to_col)" by (cases b)
    from merge_wf [OF wf, of v r c None None "Some to_row" "Some to_col"] unfold Inr b
    show ?thesis by simp
  qed
qed

lemma step_wf:
  assumes wf: "well_formed t"
  shows "well_formed (snd (step m t))"
proof (cases m)
  case (AddRow vs start)
  with add_row_wf [OF wf] show ?thesis by simp
next
  case (AddCol vs start)
  with add_col_wf [OF wf] show ?thesis by simp
next
  case (Merge v r c w h to_row to_col)
  with merge_wf [OF wf] show ?thesis by simp
next
  case (AddRule r kind)
  have "well_formed (snd (add_rule r kind t))"
    by (rule well_formed_frame [OF wf]) (simp_all add: add_rule_def depends_on_def Let_def)
  with AddRule show ?thesis by simp
next
  case (AddCline r from_col to_col)
  have "well_formed (snd (add_cline r from_col to_col t))"
    by (rule well_formed_frame [OF wf]) (simp_all add: add_cline_def depends_on_def Let_def)
  with AddCline show ?thesis by simp
next
  case (AddCmidrule r from_col to_col options)
  have "well_formed (snd (add_cmidrule r from_col to_col options t))"
    by (rule well_formed_frame [OF wf]) (simp_all add: add_cmidrule_def depends_on_def Let_def)
  with AddCmidrule show ?thesis by simp
next
  case (SetItem i j v)
  with setitem_wf [OF wf] show ?thesis by simp
next
  case (SetValue s v)
  have "well_formed (snd (update_cells (\<lambda>c. c\<lparr>raw_value := v\<rparr>) (slice_slots s) t))"
    by (rule update_cells_wf [OF _ wf]) simp
  with SetValue show ?thesis by (simp add: set_value_def)
next
  case (ForEach s func)
  have "well_formed (snd (update_cells (\<lambda>c. c\<lparr>raw_value := func (raw_value c)\<rparr>) (slice_slots s) t))"
    by (rule update_cells_wf [OF _ wf]) simp
  with ForEach show ?thesis by (simp add: for_each_def)
next
  case (SetBold s val)
  have "well_formed (snd (update_cells (\<lambda>c. c\<lparr>bold := val\<rparr>) (slice_slots s) t))"
    by (rule update_cells_wf [OF _ wf]) simp
  with SetBold show ?thesis by (simp add: set_bold_def)
next
  case (SetItalic s val)
  have "well_formed (snd (update_cells (\<lambda>c. c\<lparr>italic := val\<rparr>) (slice_slots s) t))"
    by (rule update_cells_wf [OF _ wf]) simp
  with SetItalic show ?thesis by (simp add: set_italic_def)
next
  case (SetBackgroundColor s val)
  have "well_formed (snd (update_cells (\<lambda>c. c\<lparr>background_color := Some val\<rparr>) (slice_slots s)
          (depends_on ''xcolor'' (depends_on ''colortbl'' t))))"
    by (rule update_cells_wf [OF _ depends_on_wf [OF depends_on_wf [OF wf]]]) simp
  with SetBackgroundColor show ?thesis by (simp add: set_background_color_def)
next
  case (SetRotation s degree_text options)
  have "well_formed (snd (update_cells
          (\<lambda>c. c\<lparr>rotate_degree := Some degree_text, rotate_options := Some options\<rparr>)
          (slice_slots s) (depends_on ''graphicx'' t)))"
    by (rule update_cells_wf [OF _ depends_on_wf [OF wf]]) simp
  with SetRotation show ?thesis by (simp add: set_rotation_def)
qed

lemma run_wf: "well_formed t \<Longrightarrow> well_formed (run t ms)"
proof (induction ms arbitrary: t)
  case Nil
  then show ?case by simp
next
  case (Cons m ms)
  from step_wf [OF Cons.prems] have "well_formed (snd (step m t))" .
  from Cons.IH [OF this] show ?case by simp
qed

lemma well_formed_init:
  "well_formed (TexTable_init centered' caption' caption_after_table' position' star'
                  empty_value' label' cmd')"
  by (simp add: well_formed_def refs_valid_def cells_cover_def TexTable_init_def)

lemma cells_cover_reachable:
  "cells_cover (run (TexTable_init centered' caption' caption_after_table' position' star'
                       empty_value' label' cmd') ms)"
  using run_wf [OF well_formed_init] by (simp add: well_formed_def)

text \<open>
  A table built by the methods that has no column is in the shape the code keeps: no
  call of \<open>add_col\<close> was made, and the other methods keep the shape.
\<close>

lemma add_col_cells_col_styles:
  "col_styles (snd (add_col_cells i vals t)) = col_styles t"
proof (induction vals arbitrary: i t)
  case Nil
  then show ?case by simp
next
  case (Cons val vals)
  show ?case
  proof (cases "py_index (table t) (int i)")
    case (Inl e)
    then show ?thesis by simp
  next
    case rw: (Inr rw)
    show ?thesis
    proof (cases "py_index (seps t) (- 2)")
      case (Inl e)
      with rw show ?thesis by simp
    next
      case ls: (Inr ls)
      show ?thesis
      proof (cases "py_index (seps t) (- 1)")
        case (Inl e)
        with rw ls show ?thesis by simp
      next
        case rs: (Inr rs)
        with rw ls Cons.IH [of "Suc i"] show ?thesis by simp
      qed
    qed
  qed
qed

lemma repeat_call_col_styles:
  assumes "\<And>t. length (col_styles t) \<le> length (col_styles (snd (f t)))"
  shows "length (col_styles t) \<le> length (col_styles (snd (repeat_call n f t)))"
proof (induction n arbitrary: t)
  case 0
  then show ?case by simp
next
  case (Suc n)
  obtain e t1 where f: "f t = (e, t1)" by (cases "f t")
  from assms [of t] f have le: "length (col_styles t) \<le> length (col_styles t1)" by simp
  show ?case
  proof (cases e)
    case None
    with f le Suc.IH [of t1] show ?thesis by simp
  next
    case (Some x)
    with f le show ?thesis by simp
  qed
qed

lemma add_col_empty_col_styles:
  "length (col_styles t) \<le> length (col_styles (snd (add_col_empty t)))"
  by (simp add: add_col_empty_def Let_def add_col_cells_col_styles add_col_style_fields)

lemma add_row_col_styles:
  "length (col_styles t) \<le> length (col_styles (snd (add_row values start t)))"
proof -
  define vals1 where
    "vals1 = (if start > 0
              then replicate (nat start) (empty_value t)
                     @ map (\<lambda>v. case v of Some s \<Rightarrow> s | None \<Rightarrow> empty_value t) values
              else map (\<lambda>v. case v of Some s \<Rightarrow> s | None \<Rightarrow> empty_value t) values)"
  define finish where
    "finish = (\<lambda>u vals. case new_row_cells u vals of
                Inl e \<Rightarrow> (Some e, u)
              | Inr new_cells \<Rightarrow>
                  (None, u\<lparr>table := table u
                                  @ [[length (cells u)..<length (cells u) + length new_cells]],
                            cells := cells u @ new_cells\<rparr>))"
  have unfold: "add_row values start t =
     (if length vals1 < col_count t
      then finish t (vals1 @ replicate (col_count t - length vals1) (empty_value t))
      else if length vals1 > col_count t
      then (case repeat_call (length vals1 - col_count t) add_col_empty t of
              (Some e, u) \<Rightarrow> (Some e, u)
            | (None, u) \<Rightarrow> finish u vals1)
      else finish t vals1)"
    unfolding vals1_def finish_def by (simp add: add_row_def Let_def)
  have fin: "col_styles (snd (finish u vals)) = col_styles u" for u vals
    by (cases "new_row_cells u vals") (simp_all add: finish_def)
  show ?thesis
  proof (cases "length vals1 > col_count t")
    case True
    obtain e t1 where g: "repeat_call (length vals1 - col_count t) add_col_empty t = (e, t1)"
      by (cases "repeat_call (length vals1 - col_count t) add_col_empty t")
    from repeat_call_col_styles [of add_col_empty t "length vals1 - col_count t"]
      add_col_empty_col_styles g
    have "length (col_styles t) \<le> length (col_styles t1)" by simp
    with True unfold g fin [of t1 vals1] show ?thesis
      by (cases e) simp_all
  next
    case False
    with unfold fin show ?thesis by simp
  qed
qed

lemma add_col_col_styles:
  "col_styles (snd (add_col values start t)) \<noteq> []"
proof -
  let ?s = "add_col_style t"
  define vals1 where
    "vals1 = (if start > 0 then replicate (nat start) (empty_value ?s) @ values else values)"
  have unfold: "add_col values start t =
     (if length vals1 < row_count ?s
      then add_col_cells 0 (vals1 @ replicate (row_count ?s - length vals1) (empty_value ?s)) ?s
      else if length vals1 > row_count ?s
      then (case repeat_call (length vals1 - row_count ?s) (add_row [] 0) ?s of
              (Some e, u) \<Rightarrow> (Some e, u)
            | (None, u) \<Rightarrow> add_col_cells 0 vals1 u)
      else add_col_cells 0 vals1 ?s)"
    unfolding vals1_def by (simp add: add_col_def Let_def)
  have s: "0 < length (col_styles ?s)" by (simp add: add_col_style_fields)
  show ?thesis
  proof (cases "length vals1 > row_count ?s")
    case True
    obtain e t1 where g: "repeat_call (length vals1 - row_count ?s) (add_row [] 0) ?s = (e, t1)"
      by (cases "repeat_call (length vals1 - row_count ?s) (add_row [] 0) ?s")
    from repeat_call_col_styles [of "add_row [] 0" ?s "length vals1 - row_count ?s"]
      add_row_col_styles g
    have "length (col_styles ?s) \<le> length (col_styles t1)" by simp
    with s have "col_styles t1 \<noteq> []" by auto
    with True unfold g show ?thesis
      by (cases e) (simp_all add: add_col_cells_col_styles)
  next
    case False
    with unfold s show ?thesis by (auto simp: add_col_cells_col_styles)
  qed
qed

lemma no_column_shape_step:
  assumes "col_styles t = [] \<longrightarrow> grid_shape t"
  shows "col_styles (snd (step m t)) = [] \<longrightarrow> grid_shape (snd (step m t))"
proof (cases "\<exists>vs start. m = AddCol vs start")
  case True
  then show ?thesis using add_col_col_styles by auto
next
  case False
  then have w: "within_rows m t" by (cases m) simp_all
  show ?thesis
  proof (cases "col_styles t = []")
    case True
    with assms have "grid_shape t" by simp
    from step_shape [OF this w] show ?thesis by simp
  next
    case nonempty: False
    have "col_styles (snd (step m t)) \<noteq> []"
    proof (cases m)
      case (AddRow vs start)
      with add_row_col_styles [of t vs start] nonempty show ?thesis by auto
    next
      case (AddCol vs start)
      with False show ?thesis by simp
    next
      case (Merge v r c w h to_row to_col)
      show ?thesis
      proof (cases "fst (merge v r c w h to_row to_col t)")
        case None
        from merge_success [OF None]
        have "col_styles (snd (merge v r c w h to_row to_col t)) = col_styles t" by blast
        with Merge nonempty show ?thesis by simp
      next
        case (Some e)
        from merge_failure_unchanged [OF Some] Merge nonempty show ?thesis by simp
      qed
    next
      case (AddRule r kind)
      with nonempty show ?thesis by (simp add: add_rule_def depends_on_def Let_def)
    next
      case (AddCline r from_col to_col)
      with nonempty show ?thesis by (simp add: add_cline_def depends_on_def Let_def)
    next
      case (AddCmidrule r from_col to_col options)
      with nonempty show ?thesis by (simp add: add_cmidrule_def depends_on_def Let_def)
    next
      case (SetItem i j v)
      show ?thesis
      proof (cases "\<exists>a b. i = IntIdx a \<and> j = IntIdx b")
        case True
        then obtain a b where "i = IntIdx a" "j = IntIdx b" by blast
        with SetItem nonempty show ?thesis
          by (cases "grid_ref t a b") (simp_all add: table_setitem_def)
      next
        case False
        then have unfold: "table_setitem i j v t =
           (case get_indexing_bounds t i j of
              Inl e \<Rightarrow> (Some e, t)
            | Inr (r, c, to_row, to_col) \<Rightarrow>
                merge v r c None None (Some to_row) (Some to_col) t)"
          by (auto simp: table_setitem_def split: index.splits)
        show ?thesis
        proof (cases "get_indexing_bounds t i j")
          case (Inl e)
          with unfold SetItem nonempty show ?thesis by simp
        next
          case (Inr b)
          obtain r c to_row to_col where b: "b = (r, c, to_row, to_col)" by (cases b)
          have "col_styles (snd (merge v r c None None (Some to_row) (Some to_col) t))
                  = col_styles t"
          proof (cases "fst (merge v r c None None (Some to_row) (Some to_col) t)")
            case None
            from merge_success [OF None] show ?thesis by blast
          next
            case (Some e)
            from merge_failure_unchanged [OF Some] show ?thesis by simp
          qed
          with unfold Inr b SetItem nonempty show ?thesis by simp
        qed
      qed
    next
      case (SetValue s v)
      with nonempty update_cells_frame show ?thesis by (simp add: set_value_def)
    next
      case (ForEach s func)
      with nonempty update_cells_frame show ?thesis by (simp add: for_each_def)
    next
      case (SetBold s val)
      with nonempty update_cells_frame show ?thesis by (simp add: set_bold_def)
    next
      case (SetItalic s val)
      with nonempty update_cells_frame show ?thesis by (simp add: set_italic_def)
    next
      case (SetBackgroundColor s val)
      with nonempty update_cells_frame show ?thesis
        by (simp add: set_background_color_def depends_on_def)
    next
      case (SetRotation s degree_text options)
      with nonempty update_cells_frame show ?thesis
        by (simp add: set_rotation_def depends_on_def)
    qed
    then show ?thesis by simp
  qed
qed

lemma no_column_shape_run:
  assumes "col_styles t = [] \<longrightarrow> grid_shape t"
  shows "col_styles (run t ms) = [] \<longrightarrow> grid_shape (run t ms)"
  using assms
proof (induction ms arbitrary: t)
  case Nil
  then show ?case by simp
next
  case (Cons m ms)
  from no_column_shape_step [OF Cons.prems]
  have "col_styles (snd (step m t)) = [] \<longrightarrow> grid_shape (snd (step m t))" .
  from Cons.IH [OF this] show ?case by simp
qed

lemma no_column_reachable:
  assumes "col_count (run (TexTable_init centered' caption' caption_after_table' position' star'
                             empty_value' label' cmd') ms) = 0"
  shows "grid_shape (run (TexTable_init centered' caption' caption_after_table' position' star'
                            empty_value' label' cmd') ms)"
  using no_column_shape_run [of "TexTable_init centered' caption' caption_after_table' position'
                                   star' empty_value' label' cmd'" ms]
        grid_shape_init assms
  by (simp add: col_count_def)

end
